theory Spec2Isabelle
  imports Main "HOL-Library.Word"
begin

section \<open>Data model of the fork-aware block stream\<close>

text \<open>
  The development embeds two files of the repository: the step state machine
  \<^verbatim>\<open>Forkable\<close> (package forkable) and the bundle reader \<^verbatim>\<open>FileSource\<close>
  (package bstream). Block numbers are Go \<^verbatim>\<open>uint64\<close>; the fork logic only compares
  them, so they are naturals here, and where the file source adds to them the
  wrap-around at \<open>2 ^ 64\<close> is written out. Opaque payloads (\<^verbatim>\<open>interface{}\<close>) are
  identified by a number.
\<close>

type_synonym payload = nat

record BlockRef =
  ref_id :: string
  ref_num :: nat

definition BlockRefEmpty :: BlockRef where
  "BlockRefEmpty = \<lparr>ref_id = [], ref_num = 0\<rparr>"

definition IsEmpty :: "BlockRef \<Rightarrow> bool" where
  "IsEmpty r = (ref_id r = [] \<and> ref_num r = 0)"

text \<open>\<^verbatim>\<open>bstream.Block\<close>: the decoded block handed to \<^verbatim>\<open>ProcessBlock\<close>.\<close>

record bstream_Block =
  Id' :: string
  Number :: nat
  PreviousId :: string
  LibNum :: nat

definition AsRef :: "bstream_Block \<Rightarrow> BlockRef" where
  "AsRef b = \<lparr>ref_id = Id' b, ref_num = Number b\<rparr>"

text \<open>
  Modelled from the spec: the constants of \<^verbatim>\<open>bstream.StepType\<close> are not part of the
  embedded files. The spec lists five step kinds forming an orthogonal bitmask; a
  filter is the set of kinds whose bit is set, and \<^verbatim>\<open>filterSteps & filter != 0\<close> for
  a single kind is membership.
\<close>

datatype StepType = StepNew | StepUndo | StepIrreversible | StepNewIrreversible | StepStalled

definition StepsAll :: "StepType set" where
  "StepsAll = {StepNew, StepUndo, StepIrreversible, StepNewIrreversible, StepStalled}"

text \<open>
  \<^verbatim>\<open>ForkableBlock\<close> values are shared by pointer between the fork database, the
  cached longest chain and the undo and redo segments, and \<^verbatim>\<open>sentAsNew\<close> is
  mutated through those pointers. The model keeps them in an explicit store: an
  address is an index into the list \<open>store\<close>.
\<close>

record ForkableBlock =
  Block :: bstream_Block
  Obj :: payload
  sentAsNew :: bool

text \<open>\<^verbatim>\<open>forkable.Block\<close>, a node of a segment; \<open>Object\<close> is the address of its
  \<^verbatim>\<open>ForkableBlock\<close>, or \<open>None\<close> for a nil interface value.\<close>

record fBlock =
  BlockID :: string
  BlockNum :: nat
  PreviousBlockID :: string
  Object :: "nat option"

definition fAsRef :: "fBlock \<Rightarrow> BlockRef" where
  "fAsRef b = \<lparr>ref_id = BlockID b, ref_num = BlockNum b\<rparr>"

record ForkableObject =
  step :: StepType
  StepCount :: nat
  StepIndex :: nat
  StepBlocks :: "(bstream_Block \<times> payload) list"
  headBlock :: BlockRef
  block :: BlockRef
  lastLIBSent :: BlockRef
  WrappedObj :: payload

text \<open>One call of the downstream \<^verbatim>\<open>handler.ProcessBlock(block, obj)\<close>.\<close>

type_synonym emission = "bstream_Block \<times> ForkableObject"

text \<open>
  The downstream handler is an external collaborator. It may keep state, so its
  answer (\<open>None\<close> for a nil error) depends on everything it received before and on
  the current emission.
\<close>

type_synonym Handler = "emission list \<Rightarrow> emission \<Rightarrow> string option"

datatype error =
    InvalidBlockID
  | TooManyUnlinkable
  | HandlerError string
  | ProcessBlockError StepType string

text \<open>A Go call either returns or panics; an \<^verbatim>\<open>error\<close> result is \<open>Return (Some e)\<close>,
  a nil error is \<open>Return None\<close>.\<close>

datatype 'a go = Return 'a | Panic

section \<open>The fork database\<close>

text \<open>
  The record follows the four fields of the snapshot message \<^verbatim>\<open>ForkDB\<close>. The maps
  are association lists so that the operations that visit every node can run;
  the payload map holds store addresses.
\<close>

record ForkDB =
  links :: "(string \<times> string) list"
  nums :: "(string \<times> nat) list"
  objects :: "(string \<times> nat) list"
  libRef :: BlockRef

definition NewForkDB :: ForkDB where
  "NewForkDB = \<lparr>links = [], nums = [], objects = [], libRef = BlockRefEmpty\<rparr>"

definition LIBID :: "ForkDB \<Rightarrow> string" where
  "LIBID db = ref_id (libRef db)"

definition LIBNum :: "ForkDB \<Rightarrow> nat" where
  "LIBNum db = ref_num (libRef db)"

text \<open>Modelled from the spec: \<^verbatim>\<open>HasLIB\<close> of the absent fork database, "true iff
  \<^verbatim>\<open>lib_ref\<close> is non-empty".\<close>

definition HasLIB :: "ForkDB \<Rightarrow> bool" where
  "HasLIB db = (\<not> IsEmpty (libRef db))"

text \<open>Modelled from the spec: \<^verbatim>\<open>AddLink\<close> of the absent fork database. It "returns
  true if id already present (in which case nothing is modified). Otherwise
  records id to prev and id to num, stores payload".\<close>

definition AddLink :: "ForkDB \<Rightarrow> bstream_Block \<Rightarrow> string \<Rightarrow> nat \<Rightarrow> ForkDB \<times> bool" where
  "AddLink db blk previousID a =
     (if map_of (links db) (Id' blk) \<noteq> None then (db, True)
      else (db\<lparr>links := links db @ [(Id' blk, previousID)],
               nums := nums db @ [(Id' blk, Number blk)],
               objects := objects db @ [(Id' blk, a)]\<rparr>, False))"

text \<open>Modelled from the spec: \<^verbatim>\<open>BlockForID\<close> of the absent fork database, a lookup
  of the node of an id; a known node is one with a link.\<close>

definition BlockForID :: "ForkDB \<Rightarrow> string \<Rightarrow> fBlock option" where
  "BlockForID db i =
     (case map_of (links db) i of
        None \<Rightarrow> None
      | Some prev \<Rightarrow>
          Some \<lparr>BlockID = i,
                BlockNum = (case map_of (nums db) i of None \<Rightarrow> 0 | Some n \<Rightarrow> n),
                PreviousBlockID = prev,
                Object = map_of (objects db) i\<rparr>)"

text \<open>
  Modelled from the spec: \<^verbatim>\<open>ReversibleSegment\<close> of the absent fork database. It
  "walks parents from head collecting nodes; stops at either LIB (excludes lib
  itself) or at a missing parent. Returns nil chain if the head is not linked to
  LIB. Chain is ordered from oldest to head." The walk is bounded by the map size
  and fails closed when the bound trips. Without a LIB the walk ends at the root
  and the collected chain is returned, which is what lets blocks flow before a
  LIB exists when \<^verbatim>\<open>hold_blocks_until_lib\<close> is off.
\<close>

fun segmentWalk :: "nat \<Rightarrow> ForkDB \<Rightarrow> string \<Rightarrow> fBlock list \<Rightarrow> fBlock list option \<times> bool" where
  "segmentWalk fuel db cur acc =
     (if HasLIB db \<and> cur = LIBID db then (Some acc, True)
      else (case BlockForID db cur of
              None \<Rightarrow> (if HasLIB db then None else Some acc, False)
            | Some node \<Rightarrow>
                (case fuel of
                   0 \<Rightarrow> (None, False)
                 | Suc k \<Rightarrow> segmentWalk k db (PreviousBlockID node) (node # acc))))"

definition ReversibleSegment :: "ForkDB \<Rightarrow> BlockRef \<Rightarrow> fBlock list option \<times> bool" where
  "ReversibleSegment db head = segmentWalk (length (links db)) db (ref_id head) []"



text \<open>Modelled from the spec: \<^verbatim>\<open>BlockInCurrentChain\<close> of the absent fork database.
  It "walks from head towards LIB; returns the ref of the node whose num equals
  num, or empty ref if not found".\<close>

fun chainWalk :: "nat \<Rightarrow> ForkDB \<Rightarrow> string \<Rightarrow> nat \<Rightarrow> BlockRef" where
  "chainWalk fuel db cur n =
     (case BlockForID db cur of
        None \<Rightarrow> BlockRefEmpty
      | Some node \<Rightarrow>
          (if BlockNum node = n then fAsRef node
           else if cur = LIBID db then BlockRefEmpty
           else (case fuel of
                   0 \<Rightarrow> BlockRefEmpty
                 | Suc k \<Rightarrow> chainWalk k db (PreviousBlockID node) n)))"

definition BlockInCurrentChain :: "ForkDB \<Rightarrow> BlockRef \<Rightarrow> nat \<Rightarrow> BlockRef" where
  "BlockInCurrentChain db head n = chainWalk (length (links db)) db (ref_id head) n"

text \<open>Modelled from the spec: \<^verbatim>\<open>SetLIB\<close> of the absent fork database. It "resolves
  the block of number \<^verbatim>\<open>lib_num\<close> reachable from block (following \<^verbatim>\<open>previous_id\<close>
  links) and sets \<^verbatim>\<open>lib_ref\<close> to it. If \<^verbatim>\<open>lib_num == block.num\<close>, \<^verbatim>\<open>lib_ref\<close> is the
  block's ref. If no such ancestor is linked yet, \<^verbatim>\<open>lib_ref\<close> stays empty."\<close>

fun libWalk :: "nat \<Rightarrow> ForkDB \<Rightarrow> string \<Rightarrow> nat \<Rightarrow> BlockRef option" where
  "libWalk fuel db cur n =
     (case BlockForID db cur of
        None \<Rightarrow> None
      | Some node \<Rightarrow>
          (if BlockNum node = n then Some (fAsRef node)
           else (case fuel of
                   0 \<Rightarrow> None
                 | Suc k \<Rightarrow> libWalk k db (PreviousBlockID node) n)))"

definition SetLIB :: "ForkDB \<Rightarrow> bstream_Block \<Rightarrow> string \<Rightarrow> nat \<Rightarrow> ForkDB" where
  "SetLIB db blk previousID libNum =
     (if libNum = Number blk then db\<lparr>libRef := AsRef blk\<rparr>
      else (case libWalk (length (links db)) db previousID libNum of
              None \<Rightarrow> db
            | Some r \<Rightarrow> db\<lparr>libRef := r\<rparr>))"

text \<open>Modelled from the spec: \<^verbatim>\<open>MoveLIB\<close> of the absent fork database; its
  preconditions are \<^verbatim>\<open>HasLIB\<close> and a new LIB that is not below the current one.\<close>

definition MoveLIB :: "ForkDB \<Rightarrow> BlockRef \<Rightarrow> ForkDB" where
  "MoveLIB db newLIB = db\<lparr>libRef := newLIB\<rparr>"

text \<open>Modelled from the spec: \<^verbatim>\<open>PurgeBeforeLIB\<close> of the absent fork database, which
  "removes all nodes with num < \<^verbatim>\<open>lib_ref.num - kept\<close>"; the comparison is read
  over the integers, so nothing is purged when \<open>kept\<close> exceeds the LIB number.\<close>

definition keptNode :: "ForkDB \<Rightarrow> nat \<Rightarrow> string \<Rightarrow> bool" where
  "keptNode db kept i =
     (case map_of (nums db) i of None \<Rightarrow> True | Some n \<Rightarrow> \<not> n + kept < LIBNum db)"

definition PurgeBeforeLIB :: "ForkDB \<Rightarrow> nat \<Rightarrow> ForkDB" where
  "PurgeBeforeLIB db kept =
     db\<lparr>links := filter (\<lambda>kv. keptNode db kept (fst kv)) (links db),
        nums := filter (\<lambda>kv. keptNode db kept (fst kv)) (nums db),
        objects := filter (\<lambda>kv. keptNode db kept (fst kv)) (objects db)\<rparr>"

text \<open>
  Modelled from the spec: \<^verbatim>\<open>ChainSwitchSegments\<close> of the absent fork database. It
  "finds the lowest common ancestor by walking both chains backward; returns
  \<^verbatim>\<open>undo_ids\<close> in head-to-junction order (most recent first) and \<^verbatim>\<open>redo_ids\<close> in
  junction-to-head order (oldest first)". A walk lists the ids it visits, ending
  with the first id that has no link; the junction is the first id of the second
  walk that the first walk visited. When the walks share no id there is no
  junction and both segments are empty.
\<close>

fun ancestry :: "nat \<Rightarrow> ForkDB \<Rightarrow> string \<Rightarrow> string list" where
  "ancestry fuel db cur =
     cur # (case map_of (links db) cur of
              None \<Rightarrow> []
            | Some prev \<Rightarrow> (case fuel of 0 \<Rightarrow> [] | Suc k \<Rightarrow> ancestry k db prev))"

definition ChainSwitchSegments :: "ForkDB \<Rightarrow> string \<Rightarrow> string \<Rightarrow> string list \<times> string list" where
  "ChainSwitchSegments db fromID toID =
     (let undoChain = ancestry (length (links db)) db fromID;
          redoChain = ancestry (length (links db)) db toID
      in (case find (\<lambda>i. i \<in> set undoChain) redoChain of
            None \<Rightarrow> ([], [])
          | Some junction \<Rightarrow>
              (takeWhile (\<lambda>i. i \<noteq> junction) undoChain,
               rev (takeWhile (\<lambda>i. i \<notin> set undoChain) redoChain))))"

text \<open>
  Modelled from the spec: \<^verbatim>\<open>HasNewIrreversibleSegment\<close> of the absent fork
  database. It "returns the nodes between the current LIB (exclusive) and
  \<^verbatim>\<open>new_lib\<close> (inclusive) as the irreversible segment (ordered oldest to newest),
  and all other nodes with num at most \<^verbatim>\<open>new_lib.num\<close> not on that path as
  stalled". The nodes at or below the current LIB were settled when the LIB last
  moved and are not reported again (the spec's linear scenario has no stalled
  block). Go visits a map in no fixed order; the stalled nodes are listed here in
  insertion order.
\<close>

definition allNodes :: "ForkDB \<Rightarrow> fBlock list" where
  "allNodes db = concat (map (\<lambda>kv. case BlockForID db (fst kv) of None \<Rightarrow> [] | Some n \<Rightarrow> [n]) (links db))"

definition HasNewIrreversibleSegment :: "ForkDB \<Rightarrow> BlockRef \<Rightarrow> bool \<times> fBlock list \<times> fBlock list" where
  "HasNewIrreversibleSegment db newLIB =
     (case fst (ReversibleSegment db newLIB) of
        None \<Rightarrow> (False, [], [])
      | Some seg \<Rightarrow>
          (if seg = [] then (False, [], [])
           else (True, seg,
                 filter (\<lambda>n. LIBNum db < BlockNum n \<and> BlockNum n \<le> ref_num newLIB
                              \<and> BlockID n \<notin> set (map BlockID seg))
                        (allNodes db))))"

section \<open>The Forkable state machine\<close>

record Forkable =
  forkDB :: ForkDB
  lastBlockSent :: "bstream_Block option"
  lastLIBSeen :: BlockRef
  filterSteps :: "StepType set"
  ensureBlockFlows :: BlockRef
  ensureBlockFlowed :: bool
  ensureAllBlocksTriggerLongestChain :: bool
  holdBlocksUntilLIB :: bool
  keptFinalBlocks :: nat
  includeInitialLIB :: bool
  consecutiveUnlinkableBlocks :: "64 word"
  lastLongestChain :: "fBlock list option"
  store :: "ForkableBlock list"

text \<open>\<^verbatim>\<open>New(h)\<close> with no option: every step passes the filter, the fork database
  is empty, nothing was sent.\<close>

definition New :: Forkable where
  "New = \<lparr>forkDB = NewForkDB, lastBlockSent = None, lastLIBSeen = BlockRefEmpty,
          filterSteps = StepsAll, ensureBlockFlows = BlockRefEmpty,
          ensureBlockFlowed = False, ensureAllBlocksTriggerLongestChain = False,
          holdBlocksUntilLIB = False, keptFinalBlocks = 0, includeInitialLIB = False,
          consecutiveUnlinkableBlocks = 0, lastLongestChain = None, store = []\<rparr>"

text \<open>Dereferencing \<^verbatim>\<open>b.Object.(*ForkableBlock)\<close>: a nil interface value (or an
  address outside the store) makes the type assertion panic.\<close>

definition deref :: "Forkable \<Rightarrow> nat option \<Rightarrow> ForkableBlock option" where
  "deref p a =
     (case a of
        None \<Rightarrow> None
      | Some i \<Rightarrow> (if i < length (store p) then Some (store p ! i) else None))"

definition matchFilter :: "Forkable \<Rightarrow> StepType \<Rightarrow> bool" where
  "matchFilter p f = (f \<in> filterSteps p)"

definition targetChainBlock :: "Forkable \<Rightarrow> bstream_Block \<Rightarrow> BlockRef" where
  "targetChainBlock p blk =
     (if ref_id (ensureBlockFlows p) \<noteq> [] \<and> \<not> ensureBlockFlowed p then ensureBlockFlows p
      else AsRef blk)"

definition triggersNewLongestChain :: "Forkable \<Rightarrow> bstream_Block \<Rightarrow> bool" where
  "triggersNewLongestChain p blk =
     (if ensureAllBlocksTriggerLongestChain p then True
      else (case lastBlockSent p of
              None \<Rightarrow> True
            | Some sent \<Rightarrow> Number blk > Number sent))"

definition blockFlowed :: "Forkable \<Rightarrow> BlockRef \<Rightarrow> Forkable" where
  "blockFlowed p blockRef =
     (if ref_id (ensureBlockFlows p) = [] then p
      else if ensureBlockFlowed p then p
      else if ref_id blockRef = ref_id (ensureBlockFlows p) then p\<lparr>ensureBlockFlowed := True\<rparr>
      else p)"

text \<open>\<^verbatim>\<open>computeNewLongestChain\<close>; \<open>a\<close> is the address of \<^verbatim>\<open>ppBlk\<close>.\<close>

definition canSkipRecompute :: "Forkable \<Rightarrow> bstream_Block \<Rightarrow> bool" where
  "canSkipRecompute p blk =
     (case lastLongestChain p of
        None \<Rightarrow> False
      | Some longestChain \<Rightarrow>
          length longestChain \<noteq> 0 \<and>
          PreviousId blk = BlockID (last longestChain) \<and>
          LIBID (forkDB p) = PreviousBlockID (hd longestChain))"

definition computeNewLongestChain :: "Forkable \<Rightarrow> nat \<Rightarrow> bstream_Block \<Rightarrow> fBlock list option \<times> Forkable" where
  "computeNewLongestChain p a blk =
     (let longestChain =
            (if canSkipRecompute p blk
             then Some (the (lastLongestChain p) @
                        [\<lparr>BlockID = Id' blk, BlockNum = Number blk,
                          PreviousBlockID = PreviousId blk, Object = Some a\<rparr>])
             else fst (ReversibleSegment (forkDB p) (targetChainBlock p blk)))
      in (longestChain, p\<lparr>lastLongestChain := longestChain\<rparr>))"

text \<open>\<^verbatim>\<open>sentChainSegment\<close>: the lookup of every id of a segment; a missing node
  panics. For redos, only blocks already sent as new are kept.\<close>

fun sentChainSegment :: "Forkable \<Rightarrow> string list \<Rightarrow> bool \<Rightarrow> nat list go" where
  "sentChainSegment p [] doingRedos = Return []"
| "sentChainSegment p (blockID # ids) doingRedos =
     (case BlockForID (forkDB p) blockID of
        None \<Rightarrow> Panic
      | Some blkObj \<Rightarrow>
          (case deref p (Object blkObj) of
             None \<Rightarrow> Panic
           | Some ppBlock \<Rightarrow>
               (case sentChainSegment p ids doingRedos of
                  Panic \<Rightarrow> Panic
                | Return ppBlocks \<Rightarrow>
                    (if doingRedos \<and> \<not> sentAsNew ppBlock then Return ppBlocks
                     else Return (the (Object blkObj) # ppBlocks)))))"

definition sentChainSwitchSegments :: "Forkable \<Rightarrow> string \<Rightarrow> string \<Rightarrow> (nat list \<times> nat list) go" where
  "sentChainSwitchSegments p currentHeadBlockID newHeadsPreviousID =
     (if currentHeadBlockID = newHeadsPreviousID then Return ([], [])
      else (let (undoIDs, redoIDs) =
                  ChainSwitchSegments (forkDB p) currentHeadBlockID newHeadsPreviousID
            in (case sentChainSegment p undoIDs False of
                  Panic \<Rightarrow> Panic
                | Return undos \<Rightarrow>
                    (case sentChainSegment p redoIDs True of
                       Panic \<Rightarrow> Panic
                     | Return redos \<Rightarrow> Return (undos, redos)))))"

text \<open>Resolving a list of \<^verbatim>\<open>ForkableBlock\<close> pointers.\<close>

fun derefAll :: "Forkable \<Rightarrow> nat option list \<Rightarrow> ForkableBlock list option" where
  "derefAll p [] = Some []"
| "derefAll p (a # as) =
     (case deref p a of
        None \<Rightarrow> None
      | Some fb \<Rightarrow> (case derefAll p as of None \<Rightarrow> None | Some fbs \<Rightarrow> Some (fb # fbs)))"

definition currentLIB :: "Forkable \<Rightarrow> BlockRef" where
  "currentLIB p = (if IsEmpty (lastLIBSeen p) then libRef (forkDB p) else lastLIBSeen p)"

text \<open>\<^verbatim>\<open>processBlocks\<close>: the emission of an undo or redo segment. The log is the
  list of everything the handler received so far.\<close>

fun processBlocks_loop ::
  "Handler \<Rightarrow> StepType \<Rightarrow> ForkableObject \<Rightarrow> nat \<Rightarrow> ForkableBlock list \<Rightarrow> emission list
     \<Rightarrow> error option \<times> emission list" where
  "processBlocks_loop h st fo0 idx [] log = (None, log)"
| "processBlocks_loop h st fo0 idx (blk # blks) log =
     (let fo = fo0\<lparr>WrappedObj := Obj blk, block := AsRef (Block blk), StepIndex := idx\<rparr>;
          e = (Block blk, fo)
      in (case h log e of
            Some err \<Rightarrow> (Some (ProcessBlockError st err), log @ [e])
          | None \<Rightarrow> processBlocks_loop h st fo0 (Suc idx) blks (log @ [e])))"

definition processBlocks ::
  "Handler \<Rightarrow> Forkable \<Rightarrow> emission list \<Rightarrow> BlockRef \<Rightarrow> nat list \<Rightarrow> StepType
     \<Rightarrow> error option go \<times> emission list" where
  "processBlocks h p log currentBlock blocks st =
     (case derefAll p (map Some blocks) of
        None \<Rightarrow> (Panic, log)
      | Some fbs \<Rightarrow>
          (let objs = map (\<lambda>fb. (Block fb, Obj fb)) fbs;
               fo0 = \<lparr>step = st, StepCount = length fbs, StepIndex = 0, StepBlocks = objs,
                      headBlock = currentBlock, block = BlockRefEmpty,
                      lastLIBSent = currentLIB p, WrappedObj = 0\<rparr>;
               (r, log') = processBlocks_loop h st fo0 0 fbs log
           in (Return r, log')))"

text \<open>\<^verbatim>\<open>processNewBlocks\<close>: every block of the chain not yet sent as new is emitted
  with step New (when New passes the filter), flagged, and becomes
  \<^verbatim>\<open>lastBlockSent\<close>. The head is the last element of the chain the caller passed.\<close>

definition markSent :: "Forkable \<Rightarrow> nat \<Rightarrow> ForkableBlock \<Rightarrow> Forkable" where
  "markSent p a ppBlk =
     (blockFlowed p (AsRef (Block ppBlk)))
       \<lparr>lastBlockSent := Some (Block ppBlk),
        store := (store p)[a := ppBlk\<lparr>sentAsNew := True\<rparr>]\<rparr>"

fun processNewBlocks_loop ::
  "Handler \<Rightarrow> BlockRef \<Rightarrow> fBlock list \<Rightarrow> Forkable \<Rightarrow> emission list
     \<Rightarrow> error option go \<times> Forkable \<times> emission list" where
  "processNewBlocks_loop h hdRef [] p log = (Return None, p, log)"
| "processNewBlocks_loop h hdRef (b # bs) p log =
     (case deref p (Object b) of
        None \<Rightarrow> (Panic, p, log)
      | Some ppBlk \<Rightarrow>
          (if sentAsNew ppBlk then processNewBlocks_loop h hdRef bs p log
           else if matchFilter p StepNew then
             (let fo = \<lparr>step = StepNew, StepCount = 0, StepIndex = 0, StepBlocks = [],
                        headBlock = hdRef, block = fAsRef b, lastLIBSent = currentLIB p,
                        WrappedObj = Obj ppBlk\<rparr>;
                  e = (Block ppBlk, fo)
              in (case h log e of
                    Some err \<Rightarrow> (Return (Some (HandlerError err)), p, log @ [e])
                  | None \<Rightarrow>
                      processNewBlocks_loop h hdRef bs (markSent p (the (Object b)) ppBlk) (log @ [e])))
           else processNewBlocks_loop h hdRef bs (markSent p (the (Object b)) ppBlk) log))"

definition processNewBlocks ::
  "Handler \<Rightarrow> Forkable \<Rightarrow> emission list \<Rightarrow> fBlock list
     \<Rightarrow> error option go \<times> Forkable \<times> emission list" where
  "processNewBlocks h p log longestChain =
     (if longestChain = [] then (Panic, p, log)
      else processNewBlocks_loop h (fAsRef (last longestChain)) longestChain p log)"

text \<open>\<^verbatim>\<open>processIrreversibleSegment\<close> and \<^verbatim>\<open>processStalledSegment\<close>.\<close>

fun segment_loop ::
  "Handler \<Rightarrow> (ForkableBlock \<Rightarrow> fBlock \<Rightarrow> ForkableObject) \<Rightarrow> nat \<Rightarrow> (ForkableBlock \<times> fBlock) list
     \<Rightarrow> emission list \<Rightarrow> error option \<times> emission list" where
  "segment_loop h mk idx [] log = (None, log)"
| "segment_loop h mk idx (x # xs) log =
     (let fo = (mk (fst x) (snd x))\<lparr>StepIndex := idx\<rparr>;
          e = (Block (fst x), fo)
      in (case h log e of
            Some err \<Rightarrow> (Some (HandlerError err), log @ [e])
          | None \<Rightarrow> segment_loop h mk (Suc idx) xs (log @ [e])))"

definition processIrreversibleSegment ::
  "Handler \<Rightarrow> Forkable \<Rightarrow> emission list \<Rightarrow> fBlock list \<Rightarrow> BlockRef
     \<Rightarrow> error option go \<times> Forkable \<times> emission list" where
  "processIrreversibleSegment h p log irreversibleSegment hdBlock =
     (let seen = (if irreversibleSegment = [] then p
                  else p\<lparr>lastLIBSeen := fAsRef (last irreversibleSegment)\<rparr>)
      in if matchFilter p StepIrreversible then
           (case derefAll p (map Object irreversibleSegment) of
              None \<Rightarrow> (Panic, p, log)
            | Some fbs \<Rightarrow>
                (let irrGroup = map (\<lambda>fb. (Block fb, Obj fb)) fbs;
                     mk = (\<lambda>fb b. \<lparr>step = StepIrreversible,
                                   StepCount = length irreversibleSegment, StepIndex = 0,
                                   StepBlocks = irrGroup, headBlock = hdBlock,
                                   block = AsRef (Block fb), lastLIBSent = AsRef (Block fb),
                                   WrappedObj = Obj fb\<rparr>)
                 in (case segment_loop h mk 0 (zip fbs irreversibleSegment) log of
                       (Some err, log') \<Rightarrow> (Return (Some err), p, log')
                     | (None, log') \<Rightarrow> (Return None, seen, log'))))
         else (Return None, seen, log))"

definition processStalledSegment ::
  "Handler \<Rightarrow> Forkable \<Rightarrow> emission list \<Rightarrow> fBlock list \<Rightarrow> BlockRef
     \<Rightarrow> error option go \<times> emission list" where
  "processStalledSegment h p log stalledBlocks hdBlock =
     (if matchFilter p StepStalled then
        (case derefAll p (map Object stalledBlocks) of
           None \<Rightarrow> (Panic, log)
         | Some fbs \<Rightarrow>
             (let stalledGroup = map (\<lambda>fb. (Block fb, Obj fb)) fbs;
                  mk = (\<lambda>fb b. \<lparr>step = StepStalled, StepCount = length stalledBlocks,
                                StepIndex = 0, StepBlocks = stalledGroup, headBlock = hdBlock,
                                block = fAsRef b, lastLIBSent = lastLIBSeen p,
                                WrappedObj = Obj fb\<rparr>);
                  (r, log') = segment_loop h mk 0 (zip fbs stalledBlocks) log
              in (Return r, log')))
      else (Return None, log))"

text \<open>\<^verbatim>\<open>processInitialInclusiveIrreversibleBlock\<close>: a one-block chain around a
  fresh \<^verbatim>\<open>ForkableBlock\<close> that the fork database does not reference.\<close>

definition processInitialInclusiveIrreversibleBlock ::
  "Handler \<Rightarrow> Forkable \<Rightarrow> emission list \<Rightarrow> bstream_Block \<Rightarrow> payload \<Rightarrow> bool
     \<Rightarrow> error option go \<times> Forkable \<times> emission list" where
  "processInitialInclusiveIrreversibleBlock h p log blk obj sendAsNew =
     (let a = length (store p);
          p0 = p\<lparr>store := store p @ [\<lparr>Block = blk, Obj = obj, sentAsNew = False\<rparr>]\<rparr>;
          tinyChain = [\<lparr>BlockID = Id' blk, BlockNum = Number blk, PreviousBlockID = [],
                        Object = Some a\<rparr>];
          (r, p1, log1) = (if sendAsNew then processNewBlocks h p0 log tinyChain
                           else (Return None, p0, log))
      in (case r of
            Return None \<Rightarrow> processIrreversibleSegment h p1 log1 tinyChain (AsRef blk)
          | _ \<Rightarrow> (r, p1, log1)))"

text \<open>
  \<^verbatim>\<open>ProcessBlock\<close>, cut into the stages of the source. \<open>advanceLIB\<close> is the tail
  after the new blocks were sent (from the nil test of \<^verbatim>\<open>lastBlockSent\<close> on).
\<close>

definition advanceLIB ::
  "Handler \<Rightarrow> Forkable \<Rightarrow> emission list \<Rightarrow> bstream_Block \<Rightarrow> fBlock option
     \<Rightarrow> error option go \<times> Forkable \<times> emission list" where
  "advanceLIB h p log blk firstIrreverbleBlock =
     (case lastBlockSent p of
        None \<Rightarrow> (Return None, p, log)
      | Some newHeadBlock \<Rightarrow>
          (if \<not> HasLIB (forkDB p) then (Return None, p, log)
           else
             (let newLIBNum = LibNum newHeadBlock;
                  libRef = BlockInCurrentChain (forkDB p) (AsRef newHeadBlock) newLIBNum
              in if ref_id libRef = [] then (Return None, p, log)
                 else
                   (let (hasNew, irreversibleSegment0, stalledBlocks) =
                          HasNewIrreversibleSegment (forkDB p) libRef;
                        irreversibleSegment =
                          (case firstIrreverbleBlock of
                             None \<Rightarrow> irreversibleSegment0
                           | Some f \<Rightarrow> irreversibleSegment0 @ [f])
                    in if \<not> hasNew \<and> firstIrreverbleBlock = None then (Return None, p, log)
                       else
                         (let p1 = p\<lparr>forkDB := PurgeBeforeLIB (MoveLIB (forkDB p) libRef)
                                                               (keptFinalBlocks p)\<rparr>
                          in (case processIrreversibleSegment h p1 log irreversibleSegment
                                     (AsRef blk) of
                                (Return None, p2, log2) \<Rightarrow>
                                  (let (r, log3) = processStalledSegment h p2 log2 stalledBlocks
                                                     (AsRef blk)
                                   in (r, p2, log3))
                              | other \<Rightarrow> other))))))"

text \<open>The emission of the undo segment, the redo segment and the new blocks.\<close>

definition emitSteps ::
  "Handler \<Rightarrow> Forkable \<Rightarrow> emission list \<Rightarrow> bstream_Block \<Rightarrow> fBlock list \<Rightarrow> nat list
     \<Rightarrow> nat list \<Rightarrow> fBlock option \<Rightarrow> error option go \<times> Forkable \<times> emission list" where
  "emitSteps h p log blk longestChain undos redos firstIrreverbleBlock =
     (let (r1, log1) = (if matchFilter p StepUndo
                        then processBlocks h p log (AsRef blk) undos StepUndo
                        else (Return None, log))
      in (case r1 of
            Return None \<Rightarrow>
              (let (r2, log2) = (if matchFilter p StepNew
                                 then processBlocks h p log1 (AsRef blk) redos StepNew
                                 else (Return None, log1))
               in (case r2 of
                     Return None \<Rightarrow>
                       (case processNewBlocks h p log2 longestChain of
                          (Return None, p3, log3) \<Rightarrow>
                            advanceLIB h p3 log3 blk firstIrreverbleBlock
                        | other \<Rightarrow> other)
                   | _ \<Rightarrow> (r2, p, log2)))
          | _ \<Rightarrow> (r1, p, log1)))"

text \<open>The recomputation of the longest chain, the count of consecutive
  unlinkable blocks (a Go \<^verbatim>\<open>int\<close>, compared as a signed 64-bit value) and the
  emit gate.\<close>

definition trackUnlinkable ::
  "Handler \<Rightarrow> Forkable \<Rightarrow> emission list \<Rightarrow> bstream_Block \<Rightarrow> nat \<Rightarrow> bool \<Rightarrow> nat list
     \<Rightarrow> nat list \<Rightarrow> fBlock option \<Rightarrow> error option go \<times> Forkable \<times> emission list" where
  "trackUnlinkable h p log blk a triggers undos redos firstIrreverbleBlock =
     (let (longestChain, p1) = computeNewLongestChain p a blk;
          unlinkable = (longestChain = None \<and> HasLIB (forkDB p1));
          p2 = (if unlinkable
                then p1\<lparr>consecutiveUnlinkableBlocks := consecutiveUnlinkableBlocks p1 + 1\<rparr>
                else p1\<lparr>consecutiveUnlinkableBlocks := 0\<rparr>)
      in if unlinkable \<and> 20 <s consecutiveUnlinkableBlocks p2
         then (Return (Some TooManyUnlinkable), p2, log)
         else if \<not> triggers \<or> length (case longestChain of None \<Rightarrow> [] | Some c \<Rightarrow> c) = 0
         then (Return None, p2, log)
         else emitSteps h p2 log blk (the longestChain) undos redos firstIrreverbleBlock)"

text \<open>
  The stages before the longest chain is recomputed either end the call (\<open>Inl\<close>
  with its result) or hand over (\<open>Inr\<close>) the state, the address of \<^verbatim>\<open>ppBlk\<close>,
  whether the block triggers a new longest chain, the undo and redo segments and
  \<^verbatim>\<open>firstIrreverbleBlock\<close>.
\<close>

type_synonym linked = "Forkable \<times> nat \<times> bool \<times> nat list \<times> nat list \<times> fBlock option"

type_synonym callResult = "error option go \<times> Forkable \<times> emission list"

text \<open>The LIB bootstrap, entered after the block was linked.\<close>

definition bootstrapLIB ::
  "Handler \<Rightarrow> Forkable \<Rightarrow> emission list \<Rightarrow> bstream_Block \<Rightarrow> payload \<Rightarrow> nat \<Rightarrow> bool
     \<Rightarrow> nat list \<Rightarrow> nat list \<Rightarrow> callResult + linked" where
  "bootstrapLIB h p log blk obj a triggers undos redos =
     (if \<not> HasLIB (forkDB p) then
        (let p1 = p\<lparr>forkDB := SetLIB (forkDB p) blk (PreviousId blk) (LibNum blk)\<rparr>
         in if HasLIB (forkDB p1) then
              (if ref_num (libRef (forkDB p1)) = Number blk
               then Inl (processInitialInclusiveIrreversibleBlock h p1 log blk obj True)
               else Inr (p1, a, triggers, undos, redos,
                         BlockForID (forkDB p1) (ref_id (libRef (forkDB p1)))))
            else if holdBlocksUntilLIB p1 then Inl (Return None, p1, log)
            else Inr (p1, a, triggers, undos, redos, None))
      else Inr (p, a, triggers, undos, redos, None))"

text \<open>The insertion: \<^verbatim>\<open>ppBlk\<close> is allocated at the next free address when the
  fork database takes it; a block already linked ends the call.\<close>

definition insertBlock ::
  "Handler \<Rightarrow> Forkable \<Rightarrow> emission list \<Rightarrow> bstream_Block \<Rightarrow> payload \<Rightarrow> bool
     \<Rightarrow> nat list \<Rightarrow> nat list \<Rightarrow> callResult + linked" where
  "insertBlock h p log blk obj triggers undos redos =
     (let a = length (store p);
          (db, exists) = AddLink (forkDB p) blk (PreviousId blk) a
      in if exists then Inl (Return None, p, log)
         else bootstrapLIB h
                (p\<lparr>forkDB := db,
                   store := store p @ [\<lparr>Block = blk, Obj = obj, sentAsNew = False\<rparr>]\<rparr>)
                log blk obj a triggers undos redos)"

text \<open>The undo and redo segments are computed before the block is linked.\<close>

definition precomputeSegments :: "Forkable \<Rightarrow> bool \<Rightarrow> bstream_Block \<Rightarrow> (nat list \<times> nat list) go" where
  "precomputeSegments p triggers blk =
     (if matchFilter p StepUndo then
        (case lastBlockSent p of
           None \<Rightarrow> Return ([], [])
         | Some sent \<Rightarrow>
             (if triggers then sentChainSwitchSegments p (Id' sent) (PreviousId blk)
              else Return ([], [])))
      else Return ([], []))"

definition linkStage ::
  "Handler \<Rightarrow> Forkable \<Rightarrow> emission list \<Rightarrow> bstream_Block \<Rightarrow> payload \<Rightarrow> callResult + linked" where
  "linkStage h p log blk obj =
     (if Id' blk = PreviousId blk then Inl (Return (Some InvalidBlockID), p, log)
      else if Number blk < LIBNum (forkDB p) \<and> lastBlockSent p \<noteq> None
      then Inl (Return None, p, log)
      else
        (let triggers = triggersNewLongestChain p blk
         in if includeInitialLIB p \<and> lastBlockSent p = None \<and> Id' blk = LIBID (forkDB p)
            then Inl (processInitialInclusiveIrreversibleBlock h p log blk obj True)
            else (case precomputeSegments p triggers blk of
                    Panic \<Rightarrow> Inl (Panic, p, log)
                  | Return (undos, redos) \<Rightarrow>
                      insertBlock h p log blk obj triggers undos redos)))"

definition ProcessBlock ::
  "Handler \<Rightarrow> Forkable \<Rightarrow> emission list \<Rightarrow> bstream_Block \<Rightarrow> payload \<Rightarrow> callResult" where
  "ProcessBlock h p log blk obj =
     (case linkStage h p log blk obj of
        Inl res \<Rightarrow> res
      | Inr (p0, a, triggers, undos, redos, firstIrreverbleBlock) \<Rightarrow>
          trackUnlinkable h p0 log blk a triggers undos redos firstIrreverbleBlock)"




section \<open>The file source\<close>

text \<open>Only the configuration read by \<^verbatim>\<open>lookupBlockIndex\<close> and \<^verbatim>\<open>streamReader\<close> is
  kept. The three numbers are \<^verbatim>\<open>uint64\<close>.\<close>

record FileSource =
  startBlockNum :: nat
  stopBlockNum :: nat
  bundleSize :: nat

definition u64 :: "nat \<Rightarrow> nat" where
  "u64 n = n mod 2 ^ 64"

datatype fsError = IndexAboveStop | IndexerError string | ReadError string

text \<open>\<^verbatim>\<open>BlockIndexer.BlocksInRange(baseBlock, bundleSize)\<close>, an external collaborator:
  an error or the indexed block numbers.\<close>

type_synonym BlockIndexer = "nat \<Rightarrow> nat \<Rightarrow> string + nat list"

text \<open>The inner loop of \<^verbatim>\<open>lookupBlockIndex\<close> over the indexed blocks of one bundle;
  \<open>inB\<close> is the argument \<^verbatim>\<open>in\<close> of the call, \<open>out\<close> is \<^verbatim>\<open>outBlocks\<close>.\<close>

fun scanIndexed :: "FileSource \<Rightarrow> nat \<Rightarrow> nat list \<Rightarrow> nat list \<Rightarrow> nat list" where
  "scanIndexed s inB out [] = out"
| "scanIndexed s inB out (blk # blks) =
     (if blk < startBlockNum s then scanIndexed s inB out blks
      else
        (let out1 = (if inB \<le> startBlockNum s \<and> blk > startBlockNum s \<and> length out = 0
                     then out @ [startBlockNum s] else out)
         in if stopBlockNum s \<noteq> 0 \<and> blk \<ge> stopBlockNum s then out1 @ [stopBlockNum s]
            else scanIndexed s inB (out1 @ [blk]) blks))"

definition containsStartBlock :: "FileSource \<Rightarrow> nat \<Rightarrow> bool" where
  "containsStartBlock s baseBlock =
     (baseBlock \<le> startBlockNum s \<and> u64 (baseBlock + bundleSize s) > startBlockNum s)"

definition containsStopBlock :: "FileSource \<Rightarrow> nat \<Rightarrow> bool" where
  "containsStopBlock s baseBlock =
     (stopBlockNum s \<noteq> 0 \<and> baseBlock \<le> stopBlockNum s
        \<and> u64 (baseBlock + bundleSize s) > stopBlockNum s)"

text \<open>The outer loop has no bound in the source: a call that never finds a bundle
  to return does not return, which is the value \<open>None\<close>.\<close>

partial_function (option) lookupLoop ::
  "FileSource \<Rightarrow> BlockIndexer \<Rightarrow> nat \<Rightarrow> nat \<Rightarrow> (fsError + nat \<times> nat list) option" where
  "lookupLoop s ix inB baseBlock =
     (case ix baseBlock (bundleSize s) of
        Inl e \<Rightarrow> Some (Inl (IndexerError e))
      | Inr blocks \<Rightarrow>
          (let outBlocks = scanIndexed s inB [] blocks
           in if outBlocks = [] then
                (if containsStartBlock s baseBlock \<and> containsStopBlock s baseBlock
                 then Some (Inr (baseBlock, [startBlockNum s, stopBlockNum s]))
                 else if containsStartBlock s baseBlock
                 then Some (Inr (baseBlock, [startBlockNum s]))
                 else if containsStopBlock s baseBlock
                 then Some (Inr (baseBlock, [stopBlockNum s]))
                 else lookupLoop s ix inB (u64 (baseBlock + bundleSize s)))
              else Some (Inr (baseBlock, outBlocks))))"

definition lookupBlockIndex ::
  "FileSource \<Rightarrow> BlockIndexer \<Rightarrow> nat \<Rightarrow> (fsError + nat \<times> nat list) option" where
  "lookupBlockIndex s ix inB =
     (if stopBlockNum s \<noteq> 0 \<and> inB > stopBlockNum s then Some (Inl IndexAboveStop)
      else lookupLoop s ix inB inB)"

text \<open>
  The list a bundle yields, written after the description of the lookup: the
  indexed blocks with those below the start block dropped, cut at the first block
  at or above the stop block (which contributes the stop block itself), preceded
  by the start block when the bundle contains it and it is not itself the first
  surviving block; and the sentinels alone when no indexed block survives.
\<close>

definition described_containsStart :: "FileSource \<Rightarrow> nat \<Rightarrow> bool" where
  "described_containsStart s base = (base \<le> startBlockNum s \<and> startBlockNum s < base + bundleSize s)"

definition described_containsStop :: "FileSource \<Rightarrow> nat \<Rightarrow> bool" where
  "described_containsStop s base =
     (stopBlockNum s \<noteq> 0 \<and> base \<le> stopBlockNum s \<and> stopBlockNum s < base + bundleSize s)"

definition described_cut :: "FileSource \<Rightarrow> nat list \<Rightarrow> nat list" where
  "described_cut s kept =
     (if stopBlockNum s = 0 then kept
      else takeWhile (\<lambda>b. b < stopBlockNum s) kept
           @ (if list_ex (\<lambda>b. stopBlockNum s \<le> b) kept then [stopBlockNum s] else []))"

definition described_bundle :: "FileSource \<Rightarrow> nat \<Rightarrow> nat list \<Rightarrow> nat list" where
  "described_bundle s base blocks =
     (let kept = filter (\<lambda>b. startBlockNum s \<le> b) blocks
      in if kept = [] then
           (if described_containsStart s base then [startBlockNum s] else [])
           @ (if described_containsStop s base then [stopBlockNum s] else [])
         else (if described_containsStart s base \<and> hd kept \<noteq> startBlockNum s
               then [startBlockNum s] else [])
              @ described_cut s kept)"

text \<open>The blocks the indexer reports for the bundle at \<open>base\<close> (none when it
  fails), and its contract: it answers, with block numbers inside the bundle.\<close>

definition indexedAt :: "FileSource \<Rightarrow> BlockIndexer \<Rightarrow> nat \<Rightarrow> nat list" where
  "indexedAt s ix base = (case ix base (bundleSize s) of Inl e \<Rightarrow> [] | Inr blocks \<Rightarrow> blocks)"

definition indexerOk :: "FileSource \<Rightarrow> BlockIndexer \<Rightarrow> nat \<Rightarrow> bool" where
  "indexerOk s ix base =
     (case ix base (bundleSize s) of
        Inl e \<Rightarrow> False
      | Inr blocks \<Rightarrow> list_all (\<lambda>b. base \<le> b \<and> b < base + bundleSize s) blocks)"

subsection \<open>Reading one bundle\<close>




record Cursor =
  cursorStep :: StepType
  cursorBlock :: BlockRef
  cursorHeadBlock :: BlockRef
  cursorLIB :: BlockRef

record PreprocessedBlock =
  ppBlock :: bstream_Block
  ppObj :: "payload option"
  ppCursor :: Cursor






section \<open>Runs of the state machine\<close>

text \<open>A run feeds blocks to \<^verbatim>\<open>ProcessBlock\<close> one after the other, whatever error a
  call returns; a panic ends it.\<close>

fun run ::
  "Handler \<Rightarrow> Forkable \<Rightarrow> emission list \<Rightarrow> (bstream_Block \<times> payload) list
     \<Rightarrow> (Forkable \<times> emission list) go" where
  "run h p log [] = Return (p, log)"
| "run h p log (b # bs) =
     (case ProcessBlock h p log (fst b) (snd b) of
        (Panic, p', log') \<Rightarrow> Panic
      | (Return r, p', log') \<Rightarrow> run h p' log' bs)"

text \<open>A freshly built Forkable: the options choose the configuration and may
  preset the LIB; nothing is linked and nothing was sent.\<close>

definition initial :: "Forkable \<Rightarrow> bool" where
  "initial p =
     (links (forkDB p) = [] \<and> nums (forkDB p) = [] \<and> objects (forkDB p) = []
      \<and> lastBlockSent p = None \<and> lastLongestChain p = None \<and> store p = [])"

text \<open>
  The consistency of the fork database: the three maps list the same ids in the
  same order (\<^verbatim>\<open>AddLink\<close> extends them together and the purge filters them by
  the same test), and every payload address lies inside the store.
\<close>

definition linkedObjects :: "Forkable \<Rightarrow> bool" where
  "linkedObjects p =
     (map fst (nums (forkDB p)) = map fst (links (forkDB p))
      \<and> map fst (objects (forkDB p)) = map fst (links (forkDB p))
      \<and> list_all (\<lambda>kv. snd kv < length (store p)) (objects (forkDB p)))"


text \<open>
  After a call that took the initial-LIB shortcut, the same block called again is
  linked and the longest chain is recomputed from the fork database that holds
  it, with the latch of \<^verbatim>\<open>ensureBlockFlows\<close> as the shortcut left it. \<open>replayQuiet\<close>
  says that this second call ends before the emissions: it does not count a
  twenty-first unlinkable block, and the recomputed chain is empty unless the
  block does not trigger the longest chain (once the block was sent, it triggers
  it only when every block does).
\<close>

definition relinked :: "Forkable \<Rightarrow> bstream_Block \<Rightarrow> Forkable" where
  "relinked p blk =
     (blockFlowed p (AsRef blk))
       \<lparr>forkDB := fst (AddLink (forkDB p) blk (PreviousId blk) (Suc (length (store p))))\<rparr>"

definition replayQuiet :: "Forkable \<Rightarrow> bstream_Block \<Rightarrow> bool" where
  "replayQuiet p blk =
     (let longestChain = fst (computeNewLongestChain (relinked p blk) (Suc (length (store p))) blk)
      in \<not> (longestChain = None \<and> 20 <s consecutiveUnlinkableBlocks p + 1)
         \<and> (\<not> ensureAllBlocksTriggerLongestChain p
             \<or> length (case longestChain of None \<Rightarrow> [] | Some c \<Rightarrow> c) = 0))"

subsection \<open>What was sent as new\<close>

text \<open>
  An emission of \<^verbatim>\<open>processNewBlocks\<close> has step New and no step count; the New
  emissions of a redo segment carry the size of the segment. \<open>newCount\<close> counts
  the emissions of \<^verbatim>\<open>processNewBlocks\<close> that carry an id, \<open>sentCount\<close> the
  \<^verbatim>\<open>ForkableBlock\<close>s of that id flagged \<^verbatim>\<open>sentAsNew\<close>; \<open>logged\<close> says that every
  flagged \<^verbatim>\<open>ForkableBlock\<close> has a New emission of its block in the log. A handler
  is accepting when it never returns an error.
\<close>

definition newPath :: "emission \<Rightarrow> bool" where
  "newPath e = (step (snd e) = StepNew \<and> StepCount (snd e) = 0)"

definition newCount :: "string \<Rightarrow> emission list \<Rightarrow> nat" where
  "newCount i log = length (filter (\<lambda>e. newPath e \<and> Id' (fst e) = i) log)"

definition sentCount :: "string \<Rightarrow> ForkableBlock list \<Rightarrow> nat" where
  "sentCount i st = length (filter (\<lambda>fb. sentAsNew fb \<and> Id' (Block fb) = i) st)"


definition accepting :: "Handler \<Rightarrow> bool" where
  "accepting h = (\<forall>log e. h log e = None)"

text \<open>
  The ways a call changes the store of \<^verbatim>\<open>ForkableBlock\<close>s and the log together: an
  emission that is not one of \<^verbatim>\<open>processNewBlocks\<close>; a fresh unflagged
  \<^verbatim>\<open>ForkableBlock\<close>; an unflagged \<^verbatim>\<open>ForkableBlock\<close> emitted by \<^verbatim>\<open>processNewBlocks\<close>
  and flagged; a \<^verbatim>\<open>ForkableBlock\<close> flagged with no emission, when New does not pass
  the filter; an emission the handler refused. The first parameter says that the
  handler is accepting, the second that New passes the filter.
\<close>

inductive evolves ::
  "bool \<Rightarrow> bool \<Rightarrow> ForkableBlock list \<times> emission list
     \<Rightarrow> ForkableBlock list \<times> emission list \<Rightarrow> bool"
  for acc :: bool and nf :: bool where
  same: "evolves acc nf s s"
| other: "\<not> newPath e \<Longrightarrow> evolves acc nf (st, log) (st, log @ [e])"
| alloc: "\<not> sentAsNew fb \<Longrightarrow> evolves acc nf (st, log) (st @ [fb], log)"
| sent: "a < length st \<Longrightarrow> \<not> sentAsNew (st ! a) \<Longrightarrow> newPath e \<Longrightarrow> fst e = Block (st ! a) \<Longrightarrow>
           evolves acc nf (st, log) (st[a := (st ! a)\<lparr>sentAsNew := True\<rparr>], log @ [e])"
| silent: "\<not> nf \<Longrightarrow> evolves acc nf (st, log) (st[a := (st ! a)\<lparr>sentAsNew := True\<rparr>], log)"
| refused: "\<not> acc \<Longrightarrow> evolves acc nf (st, log) (st, log @ [e])"
| chain: "evolves acc nf s t \<Longrightarrow> evolves acc nf t u \<Longrightarrow> evolves acc nf s u"

section \<open>Example inputs\<close>

text \<open>A handler that accepts everything, and a state in which block 4 was sent
  and the LIB is block 3.\<close>

definition quietHandler :: Handler where
  "quietHandler log e = None"

text \<open>The step and block id of every emission of a run, in order.\<close>

definition emitted :: "(Forkable \<times> emission list) go \<Rightarrow> (StepType \<times> string) list" where
  "emitted r = (case r of Panic \<Rightarrow> [] | Return (p, log) \<Rightarrow> map (\<lambda>e. (step (snd e), Id' (fst e))) log)"

definition mkBlock :: "string \<Rightarrow> nat \<Rightarrow> string \<Rightarrow> nat \<Rightarrow> bstream_Block \<times> payload" where
  "mkBlock i n prev l = (\<lparr>Id' = i, Number = n, PreviousId = prev, LibNum = l\<rparr>, 0)"

text \<open>A chain 1, 2, 3, a fork 3', 4' from block 2 that takes over, and the first
  chain taking over again with 4 and 5. Every block asserts LIB 1.\<close>

definition forkAndBack :: "(bstream_Block \<times> payload) list" where
  "forkAndBack =
     [mkBlock ''B1'' 1 ''G'' 1, mkBlock ''B2'' 2 ''B1'' 1, mkBlock ''B3'' 3 ''B2'' 1,
      mkBlock ''B3x'' 3 ''B2'' 1, mkBlock ''B4x'' 4 ''B3x'' 1,
      mkBlock ''B4'' 4 ''B3'' 1, mkBlock ''B5'' 5 ''B4'' 1]"

definition gateState :: Forkable where
  "gateState =
     New\<lparr>forkDB := NewForkDB\<lparr>libRef := \<lparr>ref_id = ''B3'', ref_num = 3\<rparr>\<rparr>,
         lastBlockSent := Some \<lparr>Id' = ''B4'', Number = 4, PreviousId = ''B3'', LibNum = 3\<rparr>\<rparr>"

text \<open>A state with the LIB set to block 1 in which twenty blocks in a row could
  not be linked, and a block whose parent is unknown.\<close>

definition floodState :: Forkable where
  "floodState =
     New\<lparr>forkDB := NewForkDB\<lparr>libRef := \<lparr>ref_id = ''B1'', ref_num = 1\<rparr>\<rparr>,
         consecutiveUnlinkableBlocks := 20\<rparr>"

definition strayBlock :: bstream_Block where
  "strayBlock = \<lparr>Id' = ''U7'', Number = 7, PreviousId = ''Q6'', LibNum = 1\<rparr>"


text \<open>The state after the first three blocks of the example: the chain 1, 2, 3
  with the LIB at block 1.\<close>

definition linearState :: Forkable where
  "linearState =
     (case run quietHandler New [] (take 3 forkAndBack) of
        Return (p, log) \<Rightarrow> p
      | Panic \<Rightarrow> New)"


text \<open>A file source from block 150 to block 260 in bundles of 100, an indexer
  that knows two bundles, and an indexer that is down.\<close>

definition rangedSource :: FileSource where
  "rangedSource = \<lparr>startBlockNum = 150, stopBlockNum = 260, bundleSize = 100\<rparr>"

definition openSource :: FileSource where
  "openSource = \<lparr>startBlockNum = 150, stopBlockNum = 0, bundleSize = 100\<rparr>"

definition sparseIndexer :: BlockIndexer where
  "sparseIndexer base sz =
     (if base = 0 then Inr [10, 20]
      else if base = 100 then Inr [120, 170, 180]
      else Inl ''no index'')"

definition downIndexer :: BlockIndexer where
  "downIndexer base sz = Inl ''down''"

text \<open>What the handler received during the first three blocks of the example.\<close>

definition linearLog :: "emission list" where
  "linearLog =
     (case run quietHandler New [] (take 3 forkAndBack) of
        Return (p, log) \<Rightarrow> log
      | Panic \<Rightarrow> [])"

text \<open>The same block processed twice in a row, and a self-parenting block.\<close>

definition twice ::
  "Handler \<Rightarrow> Forkable \<Rightarrow> emission list \<Rightarrow> bstream_Block \<Rightarrow> payload \<Rightarrow> callResult" where
  "twice h p log blk obj =
     (case ProcessBlock h p log blk obj of (r, p1, log1) \<Rightarrow> ProcessBlock h p1 log1 blk obj)"


text \<open>A Forkable built with the LIB preset to block 1, the count of consecutive
  unlinkable blocks at the end of a run, and a run in which block 2 links to the
  LIB, a stray block does not, and block 2 comes again.\<close>

definition presetLIB :: Forkable where
  "presetLIB = New\<lparr>forkDB := NewForkDB\<lparr>libRef := \<lparr>ref_id = ''B1'', ref_num = 1\<rparr>\<rparr>\<rparr>"

definition unlinkableCount :: "(Forkable \<times> emission list) go \<Rightarrow> 64 word" where
  "unlinkableCount r =
     (case r of Panic \<Rightarrow> 0 | Return (p, log) \<Rightarrow> consecutiveUnlinkableBlocks p)"

definition strayThenReplay :: "(bstream_Block \<times> payload) list" where
  "strayThenReplay = [mkBlock ''B2'' 2 ''B1'' 1, (strayBlock, 0), mkBlock ''B2'' 2 ''B1'' 1]"










definition firstRefused :: Handler where
  "firstRefused log e = (if log = [] then Some ''busy'' else None)"


text \<open>The state and the log after the whole example; five blocks of which the
  last reuses the id of block 2 once the LIB moved past it; two blocks for the
  handler that refuses its first emission; a Forkable that lets only Undo
  through.\<close>

definition forkedState :: Forkable where
  "forkedState =
     (case run quietHandler New [] forkAndBack of Return (p, log) \<Rightarrow> p | Panic \<Rightarrow> New)"

definition forkedLog :: "emission list" where
  "forkedLog =
     (case run quietHandler New [] forkAndBack of Return (p, log) \<Rightarrow> log | Panic \<Rightarrow> [])"

definition reusedId :: "(bstream_Block \<times> payload) list" where
  "reusedId =
     [mkBlock ''B1'' 1 ''G'' 1, mkBlock ''B2'' 2 ''B1'' 1, mkBlock ''B3'' 3 ''B2'' 2,
      mkBlock ''B4'' 4 ''B3'' 3, mkBlock ''B2'' 5 ''B4'' 3]"

definition retried :: "(bstream_Block \<times> payload) list" where
  "retried = [mkBlock ''C2'' 2 ''B1'' 1, mkBlock ''C3'' 3 ''C2'' 1]"





section \<open>Properties\<close>

text \<open>The bounded walks are unfolded by hand where a proof needs one step.\<close>

declare ancestry.simps [simp del]
declare segmentWalk.simps [simp del]
declare chainWalk.simps [simp del]
declare libWalk.simps [simp del]

subsection \<open>Self-parenting blocks\<close>

text \<open>
  C5. A block whose id equals its previous id is rejected with the invalid-data
  error: the call returns that error, the handler receives nothing (the log is
  the one passed in) and the Forkable, fork database included, is unchanged.
\<close>

theorem ProcessBlock_self_parent_rejected:
  "Id' blk = PreviousId blk \<Longrightarrow>
     ProcessBlock h p log blk obj = (Return (Some InvalidBlockID), p, log)"
  by (simp add: ProcessBlock_def linkStage_def)

theorem ProcessBlock_self_parent_rejected_witness:
  "Id' \<lparr>Id' = ''BX'', Number = 5, PreviousId = ''BX'', LibNum = 4\<rparr>
     = PreviousId \<lparr>Id' = ''BX'', Number = 5, PreviousId = ''BX'', LibNum = 4\<rparr>
   \<and> ProcessBlock quietHandler New []
        \<lparr>Id' = ''BX'', Number = 5, PreviousId = ''BX'', LibNum = 4\<rparr> 0
      = (Return (Some InvalidBlockID), New, [])"
  using ProcessBlock_self_parent_rejected
          [of "\<lparr>Id' = ''BX'', Number = 5, PreviousId = ''BX'', LibNum = 4\<rparr>" quietHandler New "[]" 0]
  by simp

subsection \<open>The gate below the LIB\<close>

text \<open>
  C4, as stated, fails: the validation of the block comes before the gate, so a
  self-parenting block below the LIB is answered with the invalid-data error and
  not with ok.
\<close>

theorem below_LIB_gate_counterexample:
  "Number \<lparr>Id' = ''BX'', Number = 2, PreviousId = ''BX'', LibNum = 1\<rparr> < LIBNum (forkDB gateState)
   \<and> lastBlockSent gateState \<noteq> None
   \<and> fst (ProcessBlock quietHandler gateState []
             \<lparr>Id' = ''BX'', Number = 2, PreviousId = ''BX'', LibNum = 1\<rparr> 0) \<noteq> Return None"
  by (simp add: ProcessBlock_def linkStage_def gateState_def New_def NewForkDB_def LIBNum_def)

text \<open>
  C4, amended: for every block that is not self-parenting and whose number is
  below the LIB number, once something was sent, the call returns ok, the handler
  receives nothing and the Forkable, fork database included, is unchanged; the
  block is not linked.
\<close>

theorem below_LIB_gate:
  "Id' blk \<noteq> PreviousId blk \<Longrightarrow> Number blk < LIBNum (forkDB p) \<Longrightarrow> lastBlockSent p \<noteq> None \<Longrightarrow>
     ProcessBlock h p log blk obj = (Return None, p, log)"
  by (simp add: ProcessBlock_def linkStage_def)

theorem below_LIB_gate_witness:
  "Id' \<lparr>Id' = ''B2'', Number = 2, PreviousId = ''B1'', LibNum = 1\<rparr>
     \<noteq> PreviousId \<lparr>Id' = ''B2'', Number = 2, PreviousId = ''B1'', LibNum = 1\<rparr>
   \<and> Number \<lparr>Id' = ''B2'', Number = 2, PreviousId = ''B1'', LibNum = 1\<rparr> < LIBNum (forkDB gateState)
   \<and> lastBlockSent gateState \<noteq> None
   \<and> ProcessBlock quietHandler gateState []
        \<lparr>Id' = ''B2'', Number = 2, PreviousId = ''B1'', LibNum = 1\<rparr> 0
      = (Return None, gateState, [])"
proof -
  have a: "Id' \<lparr>Id' = ''B2'', Number = 2, PreviousId = ''B1'', LibNum = 1\<rparr>
             \<noteq> PreviousId \<lparr>Id' = ''B2'', Number = 2, PreviousId = ''B1'', LibNum = 1\<rparr>"
    by simp
  have b: "Number \<lparr>Id' = ''B2'', Number = 2, PreviousId = ''B1'', LibNum = 1\<rparr>
             < LIBNum (forkDB gateState)"
    by (simp add: gateState_def New_def NewForkDB_def LIBNum_def)
  have c: "lastBlockSent gateState \<noteq> None"
    by (simp add: gateState_def New_def)
  show ?thesis
    using a b c below_LIB_gate [OF a b c, of quietHandler "[]" 0] by simp
qed

subsection \<open>The count of consecutive unlinkable blocks\<close>

lemma blockFlowed_counter [simp]:
  "consecutiveUnlinkableBlocks (blockFlowed p r) = consecutiveUnlinkableBlocks p"
  by (simp add: blockFlowed_def)

lemma markSent_counter [simp]:
  "consecutiveUnlinkableBlocks (markSent p a fb) = consecutiveUnlinkableBlocks p"
  by (simp add: markSent_def)

lemma processNewBlocks_loop_counter:
  "processNewBlocks_loop h hdRef bs p log = (r, p', log') \<Longrightarrow>
     consecutiveUnlinkableBlocks p' = consecutiveUnlinkableBlocks p
     \<and> r \<noteq> Return (Some TooManyUnlinkable)"
proof (induction bs arbitrary: p log)
  case Nil
  then show ?case by auto
next
  case (Cons b bs)
  show ?case
  proof (cases "deref p (Object b)")
    case None
    with Cons.prems show ?thesis by auto
  next
    case (Some fb)
    show ?thesis
      using Cons.prems Some Cons.IH [of p log] Cons.IH [of "markSent p (the (Object b)) fb"]
      by (auto simp: Let_def split: if_splits option.splits)
  qed
qed

lemma processNewBlocks_counter:
  "processNewBlocks h p log chain = (r, p', log') \<Longrightarrow>
     consecutiveUnlinkableBlocks p' = consecutiveUnlinkableBlocks p
     \<and> r \<noteq> Return (Some TooManyUnlinkable)"
  by (auto simp: processNewBlocks_def split: if_splits dest: processNewBlocks_loop_counter)

lemma segment_loop_no_flood:
  "segment_loop h mk idx xs log = (r, l) \<Longrightarrow> r \<noteq> Some TooManyUnlinkable"
  by (induction xs arbitrary: idx log) (auto simp: Let_def split: option.splits)

lemma processBlocks_loop_no_flood:
  "processBlocks_loop h st fo idx xs log = (r, l) \<Longrightarrow> r \<noteq> Some TooManyUnlinkable"
  by (induction xs arbitrary: idx log) (auto simp: Let_def split: option.splits)

lemma processIrreversibleSegment_counter:
  "processIrreversibleSegment h p log seg hb = (r, p', log') \<Longrightarrow>
     consecutiveUnlinkableBlocks p' = consecutiveUnlinkableBlocks p
     \<and> r \<noteq> Return (Some TooManyUnlinkable)"
  by (auto simp: processIrreversibleSegment_def Let_def
           split: option.splits prod.splits if_splits dest: segment_loop_no_flood)

lemma processStalledSegment_no_flood:
  "processStalledSegment h p log seg hb = (r, log') \<Longrightarrow> r \<noteq> Return (Some TooManyUnlinkable)"
  by (auto simp: processStalledSegment_def Let_def
           split: option.splits prod.splits if_splits dest: segment_loop_no_flood)

lemma processBlocks_no_flood:
  "processBlocks h p log cur blocks st = (r, log') \<Longrightarrow> r \<noteq> Return (Some TooManyUnlinkable)"
  by (auto simp: processBlocks_def Let_def
           split: option.splits prod.splits dest: processBlocks_loop_no_flood)

lemma processInitial_counter:
  "processInitialInclusiveIrreversibleBlock h p log blk obj b = (r, p', log') \<Longrightarrow>
     consecutiveUnlinkableBlocks p' = consecutiveUnlinkableBlocks p
     \<and> r \<noteq> Return (Some TooManyUnlinkable)"
  by (auto simp: processInitialInclusiveIrreversibleBlock_def Let_def
           split: go.splits option.splits prod.splits if_splits
           dest!: processNewBlocks_counter processIrreversibleSegment_counter)

lemma advanceLIB_counter:
  "advanceLIB h p log blk first = (r, p', log') \<Longrightarrow>
     consecutiveUnlinkableBlocks p' = consecutiveUnlinkableBlocks p
     \<and> r \<noteq> Return (Some TooManyUnlinkable)"
  by (auto simp: advanceLIB_def Let_def
           split: go.splits option.splits prod.splits if_splits
           dest!: processIrreversibleSegment_counter processStalledSegment_no_flood)

lemma emitSteps_counter:
  "emitSteps h p log blk chain undos redos first = (r, p', log') \<Longrightarrow>
     consecutiveUnlinkableBlocks p' = consecutiveUnlinkableBlocks p
     \<and> r \<noteq> Return (Some TooManyUnlinkable)"
  by (auto simp: emitSteps_def Let_def
           split: go.splits option.splits prod.splits if_splits
           dest!: processNewBlocks_counter advanceLIB_counter processBlocks_no_flood)


lemma bootstrapLIB_counter:
  "(bootstrapLIB h p log blk obj a t u rd = Inl (r, p', log') \<longrightarrow>
      consecutiveUnlinkableBlocks p' = consecutiveUnlinkableBlocks p
      \<and> r \<noteq> Return (Some TooManyUnlinkable))
   \<and> (bootstrapLIB h p log blk obj a t u rd = Inr (p0, x) \<longrightarrow>
      consecutiveUnlinkableBlocks p0 = consecutiveUnlinkableBlocks p)"
  by (auto simp: bootstrapLIB_def Let_def split: if_splits dest!: processInitial_counter)

lemma insertBlock_counter:
  "(insertBlock h p log blk obj t u rd = Inl (r, p', log') \<longrightarrow>
      consecutiveUnlinkableBlocks p' = consecutiveUnlinkableBlocks p
      \<and> r \<noteq> Return (Some TooManyUnlinkable))
   \<and> (insertBlock h p log blk obj t u rd = Inr (p0, x) \<longrightarrow>
      consecutiveUnlinkableBlocks p0 = consecutiveUnlinkableBlocks p)"
  using bootstrapLIB_counter [of h _ log blk obj "length (store p)" t u rd r p' log' p0 x]
  by (auto simp: insertBlock_def Let_def split: if_splits prod.splits)

lemma linkStage_counter:
  "(linkStage h p log blk obj = Inl (r, p', log') \<longrightarrow>
      consecutiveUnlinkableBlocks p' = consecutiveUnlinkableBlocks p
      \<and> r \<noteq> Return (Some TooManyUnlinkable))
   \<and> (linkStage h p log blk obj = Inr (p0, x) \<longrightarrow>
      consecutiveUnlinkableBlocks p0 = consecutiveUnlinkableBlocks p)"
  using insertBlock_counter [of h p log blk obj _ _ _ r p' log' p0 x]
  by (auto simp: linkStage_def Let_def split: if_splits go.splits prod.splits
           dest!: processInitial_counter)

text \<open>
  C6, as stated, fails. A call that ends before the longest chain is recomputed
  does not reset the count: after block 2 linked to the preset LIB and a stray
  block did not, the count is 1, and it is still 1 after block 2 came again and
  was answered ok. Such a call does not return the flood error either, whatever
  the count: with the count at 20, a stray block takes it to 21 and is refused,
  and the same block again is answered ok with the count still at 21.
\<close>

theorem unlinkable_counter_counterexample:
  "HasLIB (forkDB presetLIB)
   \<and> unlinkableCount (run quietHandler presetLIB [] (take 2 strayThenReplay)) = 1
   \<and> unlinkableCount (run quietHandler presetLIB [] strayThenReplay) = 1
   \<and> HasLIB (forkDB floodState)
   \<and> fst (twice quietHandler floodState [] strayBlock 0) = Return None
   \<and> consecutiveUnlinkableBlocks (fst (snd (twice quietHandler floodState [] strayBlock 0))) = 21"
  by code_simp

text \<open>
  C6, amended: a call either ends before the longest chain is recomputed (a
  self-parenting block, a block below the LIB once something was sent, the
  initial LIB, a block already linked, the LIB bootstrap), and then leaves the
  count of consecutive unlinkable blocks alone and does not return the flood
  error; or it recomputes the chain, and then the count is incremented when the
  chain is nil while a LIB is set and reset to zero otherwise, and the call
  returns the flood error exactly when the chain was nil with a LIB set and the
  incremented count exceeds 20.
\<close>

theorem unlinkable_counter:
  assumes that: "ProcessBlock h p log blk obj = (r, p', log')"
  shows
    "(case linkStage h p log blk obj of
        Inl early \<Rightarrow>
          consecutiveUnlinkableBlocks p' = consecutiveUnlinkableBlocks p
          \<and> r \<noteq> Return (Some TooManyUnlinkable)
      | Inr (p0, a, triggers, undos, redos, first) \<Rightarrow>
          (let unlinkable = (fst (computeNewLongestChain p0 a blk) = None \<and> HasLIB (forkDB p0))
           in consecutiveUnlinkableBlocks p' =
                (if unlinkable then consecutiveUnlinkableBlocks p + 1 else 0)
              \<and> (r = Return (Some TooManyUnlinkable)
                   \<longleftrightarrow> unlinkable \<and> 20 <s consecutiveUnlinkableBlocks p')))"
proof (cases "linkStage h p log blk obj")
  case (Inl early)
  obtain r0 q0 l0 where e: "early = (r0, q0, l0)" by (cases early) auto
  show ?thesis
    using Inl e linkStage_counter [of h p log blk obj r0 q0 l0] that
    by (auto simp: ProcessBlock_def)
next
  case (Inr lk)
  obtain p0 a triggers undos redos first where
    lk: "lk = (p0, a, triggers, undos, redos, first)" by (cases lk) auto
  have c0: "consecutiveUnlinkableBlocks p0 = consecutiveUnlinkableBlocks p"
    using Inr lk linkStage_counter [of h p log blk obj r p' log' p0 "(a, triggers, undos, redos, first)"]
    by simp
  have t: "trackUnlinkable h p0 log blk a triggers undos redos first = (r, p', log')"
    using that Inr lk by (simp add: ProcessBlock_def)
  have f: "forkDB (snd (computeNewLongestChain p0 a blk)) = forkDB p0"
          "consecutiveUnlinkableBlocks (snd (computeNewLongestChain p0 a blk)) = consecutiveUnlinkableBlocks p0"
    by (simp_all add: computeNewLongestChain_def Let_def)
  show ?thesis
    using t c0 f Inr lk
    by (auto simp: trackUnlinkable_def Let_def split: prod.splits if_splits
             dest!: emitSteps_counter)
qed


lemma strayBlock_unlinkable: "(case linkStage quietHandler floodState [] strayBlock 0 of
          Inl early \<Rightarrow> False
        | Inr (p0, a, triggers, undos, redos, first) \<Rightarrow>
            fst (computeNewLongestChain p0 a strayBlock) = None \<and> HasLIB (forkDB p0))"
  by code_simp

lemma floodState_count: "consecutiveUnlinkableBlocks floodState = 20"
  by (simp add: floodState_def)

theorem unlinkable_counter_witness:
  "fst (ProcessBlock quietHandler floodState [] strayBlock 0) = Return (Some TooManyUnlinkable)
   \<and> consecutiveUnlinkableBlocks (fst (snd (ProcessBlock quietHandler floodState [] strayBlock 0))) = 21"
proof -
  let ?R = "ProcessBlock quietHandler floodState [] strayBlock 0"
  have e: "?R = (fst ?R, fst (snd ?R), snd (snd ?R))" by simp
  show ?thesis
    using unlinkable_counter [OF e] strayBlock_unlinkable floodState_count
    by (auto split: sum.splits prod.splits)
qed

subsection \<open>End of file while reading a bundle\<close>



subsection \<open>The lookup of the block index\<close>

lemma described_cut_Cons:
  "described_cut s (b # kept) =
     (if stopBlockNum s \<noteq> 0 \<and> stopBlockNum s \<le> b then [stopBlockNum s]
      else b # described_cut s kept)"
  by (auto simp: described_cut_def)

lemma scanIndexed_started:
  "out \<noteq> [] \<Longrightarrow>
     scanIndexed s inB out blocks
       = out @ described_cut s (filter (\<lambda>b. startBlockNum s \<le> b) blocks)"
proof (induction blocks arbitrary: out)
  case Nil
  then show ?case by (simp add: described_cut_def)
next
  case (Cons blk blks)
  show ?case
  proof (cases "blk < startBlockNum s")
    case True
    then show ?thesis using Cons by simp
  next
    case False
    then show ?thesis
      using Cons.prems Cons.IH [of "out @ [blk]"]
      by (simp add: described_cut_Cons Let_def)
  qed
qed

lemma scanIndexed_fresh:
  "scanIndexed s inB [] blocks =
     (let kept = filter (\<lambda>b. startBlockNum s \<le> b) blocks
      in if kept = [] then []
         else (if inB \<le> startBlockNum s \<and> hd kept > startBlockNum s then [startBlockNum s]
               else [])
              @ described_cut s kept)"
proof (induction blocks)
  case Nil
  then show ?case by simp
next
  case (Cons blk blks)
  show ?case
  proof (cases "blk < startBlockNum s")
    case True
    then show ?thesis using Cons.IH by (simp add: Let_def)
  next
    case False
    then show ?thesis
      by (simp add: Let_def described_cut_Cons scanIndexed_started)
  qed
qed

lemma described_cut_nonempty: "kept \<noteq> [] \<Longrightarrow> described_cut s kept \<noteq> []"
  by (cases kept) (auto simp: described_cut_Cons)


lemma u64_small: "n < 2 ^ 64 \<Longrightarrow> u64 n = n"
  by (simp add: u64_def)

lemma bundle_refines:
  assumes ok: "indexerOk s ix base"
      and small: "base + bundleSize s < 2 ^ 64"
      and le: "inB \<le> base"
      and before: "inB \<le> startBlockNum s \<longrightarrow> base \<le> startBlockNum s"
  shows "lookupLoop s ix inB base =
           (if described_bundle s base (indexedAt s ix base) = []
            then lookupLoop s ix inB (base + bundleSize s)
            else Some (Inr (base, described_bundle s base (indexedAt s ix base))))"
proof -
  obtain blocks where ix: "ix base (bundleSize s) = Inr blocks"
    and range: "list_all (\<lambda>b. base \<le> b \<and> b < base + bundleSize s) blocks"
    using ok by (auto simp: indexerOk_def split: sum.splits)
  have ind: "indexedAt s ix base = blocks"
    by (simp add: indexedAt_def ix)
  let ?kept = "filter (\<lambda>b. startBlockNum s \<le> b) blocks"
  have cs: "containsStartBlock s base = described_containsStart s base"
    by (simp add: containsStartBlock_def described_containsStart_def u64_small [OF small])
  have cp: "containsStopBlock s base = described_containsStop s base"
    by (simp add: containsStopBlock_def described_containsStop_def u64_small [OF small])
  show ?thesis
  proof (cases "?kept = []")
    case True
    have out: "scanIndexed s inB [] blocks = []"
      using True by (simp add: scanIndexed_fresh)
    show ?thesis
      apply (subst lookupLoop.simps)
      using True out
      by (simp add: ix ind cs cp described_bundle_def u64_small [OF small])
  next
    case False
    then obtain k0 ks where kept: "?kept = k0 # ks" by (cases ?kept) auto
    have "k0 \<in> set ?kept" by (simp add: kept)
    then have k0: "startBlockNum s \<le> k0" "base \<le> k0" "k0 < base + bundleSize s"
      using range by (auto simp: list_all_iff)
    have pre: "(inB \<le> startBlockNum s \<and> startBlockNum s < k0)
                 = (described_containsStart s base \<and> k0 \<noteq> startBlockNum s)"
      using k0 le before by (auto simp: described_containsStart_def)
    have nonempty: "described_cut s ?kept \<noteq> []"
      using False by (rule described_cut_nonempty)
    have out: "scanIndexed s inB [] blocks
                 = (if described_containsStart s base \<and> k0 \<noteq> startBlockNum s
                    then [startBlockNum s] else []) @ described_cut s ?kept"
      using pre by (simp add: scanIndexed_fresh Let_def kept)
    have db: "described_bundle s base blocks = scanIndexed s inB [] blocks"
      by (simp add: out described_bundle_def Let_def kept)
    have ne: "scanIndexed s inB [] blocks \<noteq> []"
      using nonempty by (simp add: out)
    show ?thesis
      apply (subst lookupLoop.simps)
      using ne by (simp add: ix ind db)
  qed
qed

lemma lookupLoop_finds:
  assumes "inB \<le> base"
      and "inB \<le> startBlockNum s \<longrightarrow> base \<le> startBlockNum s"
      and "base + (k + 1) * bundleSize s < 2 ^ 64"
      and "\<forall>j\<le>k. indexerOk s ix (base + j * bundleSize s)"
      and "\<forall>j<k. described_bundle s (base + j * bundleSize s)
                     (indexedAt s ix (base + j * bundleSize s)) = []"
      and "described_bundle s (base + k * bundleSize s)
             (indexedAt s ix (base + k * bundleSize s)) \<noteq> []"
  shows "lookupLoop s ix inB base
           = Some (Inr (base + k * bundleSize s,
                        described_bundle s (base + k * bundleSize s)
                          (indexedAt s ix (base + k * bundleSize s))))"
  using assms
proof (induction k arbitrary: base)
  case 0
  then show ?case
    using bundle_refines [of s ix base inB] by simp
next
  case (Suc k)
  let ?sz = "bundleSize s"
  have ok0: "indexerOk s ix base" using Suc.prems(4) by (metis le0 add_0_right mult_0)
  have small: "base + ?sz < 2 ^ 64"
  proof -
    have "base + ?sz \<le> base + (Suc k + 1) * ?sz" by simp
    then show ?thesis using Suc.prems(3) by linarith
  qed
  have skip: "described_bundle s base (indexedAt s ix base) = []"
    using Suc.prems(5) by (metis zero_less_Suc add_0_right mult_0)
  have step: "lookupLoop s ix inB base = lookupLoop s ix inB (base + ?sz)"
    using bundle_refines [OF ok0 small Suc.prems(1) Suc.prems(2)] skip by simp
  have nostart: "\<not> described_containsStart s base"
    using skip described_cut_nonempty [of "filter (\<lambda>b. startBlockNum s \<le> b) (indexedAt s ix base)" s]
    by (auto simp: described_bundle_def Let_def split: if_splits)
  have a1: "inB \<le> base + ?sz" using Suc.prems(1) by simp
  have a2: "inB \<le> startBlockNum s \<longrightarrow> base + ?sz \<le> startBlockNum s"
  proof
    assume "inB \<le> startBlockNum s"
    then have "base \<le> startBlockNum s" using Suc.prems(2) by simp
    then show "base + ?sz \<le> startBlockNum s"
      using nostart by (simp add: described_containsStart_def)
  qed
  have sh: "\<And>j. base + ?sz + j * ?sz = base + Suc j * ?sz" by simp
  have a3: "base + ?sz + (k + 1) * ?sz < 2 ^ 64"
    using Suc.prems(3) by (simp add: algebra_simps)
  have a4: "\<forall>j\<le>k. indexerOk s ix (base + ?sz + j * ?sz)"
    using Suc.prems(4) by (metis sh Suc_le_mono)
  have a5: "\<forall>j<k. described_bundle s (base + ?sz + j * ?sz)
                     (indexedAt s ix (base + ?sz + j * ?sz)) = []"
    using Suc.prems(5) by (metis sh Suc_less_eq)
  have a6: "described_bundle s (base + ?sz + k * ?sz)
             (indexedAt s ix (base + ?sz + k * ?sz)) \<noteq> []"
    using Suc.prems(6) by (simp add: add.assoc)
  show ?case
    using Suc.IH [OF a1 a2 a3 a4 a5 a6] step by (simp add: add.assoc)
qed


lemma lookupLoop_fails:
  assumes "inB \<le> base"
      and "inB \<le> startBlockNum s \<longrightarrow> base \<le> startBlockNum s"
      and "base + k * bundleSize s < 2 ^ 64"
      and "\<forall>j<k. indexerOk s ix (base + j * bundleSize s)"
      and "\<forall>j<k. described_bundle s (base + j * bundleSize s)
                     (indexedAt s ix (base + j * bundleSize s)) = []"
      and "ix (base + k * bundleSize s) (bundleSize s) = Inl e"
  shows "lookupLoop s ix inB base = Some (Inl (IndexerError e))"
  using assms
proof (induction k arbitrary: base)
  case 0
  show ?case
    apply (subst lookupLoop.simps)
    using "0.prems"(6) by simp
next
  case (Suc k)
  let ?sz = "bundleSize s"
  have ok0: "indexerOk s ix base" using Suc.prems(4) by (metis zero_less_Suc add_0_right mult_0)
  have small: "base + ?sz < 2 ^ 64"
  proof -
    have "base + ?sz \<le> base + Suc k * ?sz" by simp
    then show ?thesis using Suc.prems(3) by linarith
  qed
  have skip: "described_bundle s base (indexedAt s ix base) = []"
    using Suc.prems(5) by (metis zero_less_Suc add_0_right mult_0)
  have step: "lookupLoop s ix inB base = lookupLoop s ix inB (base + ?sz)"
    using bundle_refines [OF ok0 small Suc.prems(1) Suc.prems(2)] skip by simp
  have nostart: "\<not> described_containsStart s base"
    using skip described_cut_nonempty [of "filter (\<lambda>b. startBlockNum s \<le> b) (indexedAt s ix base)" s]
    by (auto simp: described_bundle_def Let_def split: if_splits)
  have a1: "inB \<le> base + ?sz" using Suc.prems(1) by simp
  have a2: "inB \<le> startBlockNum s \<longrightarrow> base + ?sz \<le> startBlockNum s"
  proof
    assume "inB \<le> startBlockNum s"
    then have "base \<le> startBlockNum s" using Suc.prems(2) by simp
    then show "base + ?sz \<le> startBlockNum s"
      using nostart by (simp add: described_containsStart_def)
  qed
  have sh: "\<And>j. base + ?sz + j * ?sz = base + Suc j * ?sz" by simp
  have a3: "base + ?sz + k * ?sz < 2 ^ 64"
    using Suc.prems(3) by (simp add: algebra_simps)
  have a4: "\<forall>j<k. indexerOk s ix (base + ?sz + j * ?sz)"
    using Suc.prems(4) by (metis sh Suc_less_eq)
  have a5: "\<forall>j<k. described_bundle s (base + ?sz + j * ?sz)
                     (indexedAt s ix (base + ?sz + j * ?sz)) = []"
    using Suc.prems(5) by (metis sh Suc_less_eq)
  have a6: "ix (base + ?sz + k * ?sz) ?sz = Inl e"
    using Suc.prems(6) by (simp add: add.assoc)
  show ?case
    using Suc.IH [OF a1 a2 a3 a4 a5 a6] step by simp
qed

lemma lookupLoop_no_stop_error:
  assumes "lookupLoop s ix inB base = Some r"
  shows "r \<noteq> Inl IndexAboveStop"
proof (rule lookupLoop.raw_induct
         [where P = "\<lambda>s ix inB base y. y \<noteq> Inl IndexAboveStop", OF _ assms])
  fix f :: "FileSource \<Rightarrow> BlockIndexer \<Rightarrow> nat \<Rightarrow> nat \<Rightarrow> (fsError + nat \<times> nat list) option"
    and s0 ix0 inB0 base0 y
  assume ih: "\<And>s1 ix1 inB1 base1 y1. f s1 ix1 inB1 base1 = Some y1 \<Longrightarrow> y1 \<noteq> Inl IndexAboveStop"
     and body: "(case ix0 base0 (bundleSize s0) of
      Inl e \<Rightarrow> Some (Inl (IndexerError e))
      | Inr blocks \<Rightarrow>
          let outBlocks = scanIndexed s0 inB0 [] blocks
          in if outBlocks = []
             then if containsStartBlock s0 base0 \<and> containsStopBlock s0 base0
                  then Some (Inr (base0, [startBlockNum s0, stopBlockNum s0]))
                  else if containsStartBlock s0 base0
                       then Some (Inr (base0, [startBlockNum s0]))
                       else if containsStopBlock s0 base0
                            then Some (Inr (base0, [stopBlockNum s0]))
                            else f s0 ix0 inB0 (u64 (base0 + bundleSize s0))
             else Some (Inr (base0, outBlocks))) = Some y"
  show "y \<noteq> Inl IndexAboveStop"
    using body ih by (auto simp: Let_def split: sum.splits if_splits)
qed

text \<open>
  C8, amended. The call returns the index-misuse error exactly when the stop block
  is set and the argument is above it. Otherwise, while the indexer answers with
  block numbers inside the bundle it is asked about and the bundle bounds stay
  below \<open>2 ^ 64\<close>, the bundles that yield the empty list are skipped; at the
  first bundle that does not come out empty, a failing indexer makes the call
  return the indexer's error, and an answering indexer makes it return that
  bundle with the list described for it: the indexed blocks from the start block
  on, cut at the first one at or above the stop block (replaced by the stop
  block), preceded by the start block when the bundle contains it and it is not
  itself the first surviving block, or the sentinels alone when no indexed block
  survives.
\<close>

theorem lookupBlockIndex_postcondition:
  "(lookupBlockIndex s ix inB = Some (Inl IndexAboveStop)
      \<longleftrightarrow> stopBlockNum s \<noteq> 0 \<and> inB > stopBlockNum s)
   \<and> (\<not> (stopBlockNum s \<noteq> 0 \<and> inB > stopBlockNum s)
       \<and> inB + k * bundleSize s < 2 ^ 64
       \<and> (\<forall>j<k. indexerOk s ix (inB + j * bundleSize s)
                 \<and> described_bundle s (inB + j * bundleSize s)
                      (indexedAt s ix (inB + j * bundleSize s)) = [])
       \<longrightarrow>
         (ix (inB + k * bundleSize s) (bundleSize s) = Inl e
            \<longrightarrow> lookupBlockIndex s ix inB = Some (Inl (IndexerError e)))
         \<and> (indexerOk s ix (inB + k * bundleSize s)
             \<and> inB + (k + 1) * bundleSize s < 2 ^ 64
             \<and> described_bundle s (inB + k * bundleSize s)
                  (indexedAt s ix (inB + k * bundleSize s)) \<noteq> []
            \<longrightarrow> lookupBlockIndex s ix inB
                  = Some (Inr (inB + k * bundleSize s,
                               described_bundle s (inB + k * bundleSize s)
                                 (indexedAt s ix (inB + k * bundleSize s))))))"
proof (intro conjI impI)
  show "(lookupBlockIndex s ix inB = Some (Inl IndexAboveStop))
          = (stopBlockNum s \<noteq> 0 \<and> inB > stopBlockNum s)"
    using lookupLoop_no_stop_error [of s ix inB inB]
    by (auto simp: lookupBlockIndex_def)
next
  assume h: "\<not> (stopBlockNum s \<noteq> 0 \<and> inB > stopBlockNum s)
       \<and> inB + k * bundleSize s < 2 ^ 64
       \<and> (\<forall>j<k. indexerOk s ix (inB + j * bundleSize s)
                 \<and> described_bundle s (inB + j * bundleSize s)
                      (indexedAt s ix (inB + j * bundleSize s)) = [])"
     and f: "ix (inB + k * bundleSize s) (bundleSize s) = Inl e"
  have "lookupLoop s ix inB inB = Some (Inl (IndexerError e))"
    using h f by (intro lookupLoop_fails [where k = k]) auto
  then show "lookupBlockIndex s ix inB = Some (Inl (IndexerError e))"
    using h by (auto simp: lookupBlockIndex_def)
next
  assume h: "\<not> (stopBlockNum s \<noteq> 0 \<and> inB > stopBlockNum s)
       \<and> inB + k * bundleSize s < 2 ^ 64
       \<and> (\<forall>j<k. indexerOk s ix (inB + j * bundleSize s)
                 \<and> described_bundle s (inB + j * bundleSize s)
                      (indexedAt s ix (inB + j * bundleSize s)) = [])"
     and g: "indexerOk s ix (inB + k * bundleSize s)
             \<and> inB + (k + 1) * bundleSize s < 2 ^ 64
             \<and> described_bundle s (inB + k * bundleSize s)
                  (indexedAt s ix (inB + k * bundleSize s)) \<noteq> []"
  have ok: "\<forall>j\<le>k. indexerOk s ix (inB + j * bundleSize s)"
    using h g by (auto simp: le_less)
  have "lookupLoop s ix inB inB
          = Some (Inr (inB + k * bundleSize s,
                       described_bundle s (inB + k * bundleSize s)
                         (indexedAt s ix (inB + k * bundleSize s))))"
    using h g ok by (intro lookupLoop_finds) auto
  then show "lookupBlockIndex s ix inB
                  = Some (Inr (inB + k * bundleSize s,
                               described_bundle s (inB + k * bundleSize s)
                                 (indexedAt s ix (inB + k * bundleSize s))))"
    using h by (auto simp: lookupBlockIndex_def)
qed

text \<open>
  C8, as stated, fails: with no stop block, so that the argument cannot be above
  it, the call still returns an error when the indexer does.
\<close>

theorem lookupBlockIndex_counterexample:
  "\<not> (stopBlockNum openSource \<noteq> 0 \<and> 0 > stopBlockNum openSource)
   \<and> lookupBlockIndex openSource downIndexer 0 = Some (Inl (IndexerError ''down''))"
  apply (simp add: lookupBlockIndex_def openSource_def)
  apply (subst lookupLoop.simps)
  apply (simp add: downIndexer_def)
  done

lemma sparse_first_bundle:
  "indexerOk rangedSource sparseIndexer 0
   \<and> described_bundle rangedSource 0 (indexedAt rangedSource sparseIndexer 0) = []"
  by (simp add: indexerOk_def rangedSource_def sparseIndexer_def described_bundle_def
        indexedAt_def described_containsStart_def described_containsStop_def)

lemma sparse_second_bundle:
  "indexerOk rangedSource sparseIndexer 100
   \<and> described_bundle rangedSource 100 (indexedAt rangedSource sparseIndexer 100)
       = [150, 170, 180]"
  by (simp add: indexerOk_def rangedSource_def sparseIndexer_def described_bundle_def
        indexedAt_def described_containsStart_def described_containsStop_def described_cut_def)

theorem lookupBlockIndex_postcondition_witness:
  "lookupBlockIndex rangedSource sparseIndexer 0 = Some (Inr (100, [150, 170, 180]))"
proof -
  have sz: "bundleSize rangedSource = 100" "stopBlockNum rangedSource = 260"
    by (simp_all add: rangedSource_def)
  have skipped: "\<forall>j<(1::nat). indexerOk rangedSource sparseIndexer (0 + j * bundleSize rangedSource)
                 \<and> described_bundle rangedSource (0 + j * bundleSize rangedSource)
                      (indexedAt rangedSource sparseIndexer (0 + j * bundleSize rangedSource)) = []"
    using sparse_first_bundle by simp
  show ?thesis
    using lookupBlockIndex_postcondition [of rangedSource sparseIndexer 0 1]
          skipped sparse_second_bundle
    by (simp add: sz)
qed

subsection \<open>The lookup of the blocks of a chain switch\<close>

text \<open>Every id of the two segments of a chain switch is linked: it is an id of
  one of the two walks, and not the last one of its walk, which alone may have no
  link.\<close>

lemma ancestry_linked:
  "i \<in> set (butlast (ancestry n db c)) \<Longrightarrow> map_of (links db) i \<noteq> None"
proof (induction n arbitrary: c)
  case 0
  then show ?case
    by (subst (asm) ancestry.simps) (auto split: option.splits if_splits)
next
  case (Suc n)
  show ?case
  proof (cases "map_of (links db) c")
    case None
    with Suc.prems show ?thesis
      by (subst (asm) ancestry.simps) simp
  next
    case (Some prev)
    have e: "ancestry (Suc n) db c = c # ancestry n db prev"
      by (subst ancestry.simps) (simp add: Some)
    have ne: "ancestry n db prev \<noteq> []"
      by (subst ancestry.simps) simp
    from Suc.prems have "i = c \<or> i \<in> set (butlast (ancestry n db prev))"
      by (simp add: e ne split: if_splits)
    then show ?thesis
      using Some Suc.IH by auto
  qed
qed

lemma takeWhile_butlast:
  "\<exists>y\<in>set xs. \<not> P y \<Longrightarrow> set (takeWhile P xs) \<subseteq> set (butlast xs)"
  by (induction xs) auto

lemma find_SomeD: "find P xs = Some x \<Longrightarrow> x \<in> set xs \<and> P x"
  by (induction xs) (auto split: if_splits)

lemma ChainSwitchSegments_linked:
  assumes "ChainSwitchSegments db fromID toID = (undoIDs, redoIDs)"
      and "i \<in> set undoIDs \<union> set redoIDs"
  shows "map_of (links db) i \<noteq> None"
proof -
  let ?u = "ancestry (length (links db)) db fromID"
  let ?r = "ancestry (length (links db)) db toID"
  show ?thesis
  proof (cases "find (\<lambda>i. i \<in> set ?u) ?r")
    case None
    with assms show ?thesis by (simp add: ChainSwitchSegments_def Let_def)
  next
    case (Some junction)
    then have j: "junction \<in> set ?r" "junction \<in> set ?u"
      using find_SomeD [of "\<lambda>i. i \<in> set ?u" ?r junction] by auto
    have undo: "undoIDs = takeWhile (\<lambda>i. i \<noteq> junction) ?u"
      and redo: "redoIDs = rev (takeWhile (\<lambda>i. i \<notin> set ?u) ?r)"
      using assms(1) Some by (simp_all add: ChainSwitchSegments_def Let_def)
    have "set undoIDs \<subseteq> set (butlast ?u)"
      unfolding undo using j(2) by (intro takeWhile_butlast) auto
    moreover have "set redoIDs \<subseteq> set (butlast ?r)"
      unfolding redo set_rev using j by (intro takeWhile_butlast) auto
    ultimately show ?thesis
      using assms(2) ancestry_linked by blast
  qed
qed

lemma linked_deref:
  assumes "linkedObjects p" and "map_of (links (forkDB p)) i \<noteq> None"
  shows "\<exists>node fb. BlockForID (forkDB p) i = Some node \<and> deref p (Object node) = Some fb"
proof -
  from assms(2) have "i \<in> fst ` set (links (forkDB p))"
    by (metis map_of_eq_None_iff)
  then have "i \<in> fst ` set (objects (forkDB p))"
    using assms(1) by (metis linkedObjects_def set_map)
  then obtain a where a: "map_of (objects (forkDB p)) i = Some a"
    by (metis map_of_eq_None_iff not_None_eq)
  then have "(i, a) \<in> set (objects (forkDB p))" by (rule map_of_SomeD)
  then have "a < length (store p)"
    using assms(1) by (auto simp: linkedObjects_def list_all_iff)
  then show ?thesis
    using assms(2) a by (auto simp: BlockForID_def deref_def)
qed

lemma sentChainSegment_returns:
  "linkedObjects p \<Longrightarrow> \<forall>i\<in>set ids. map_of (links (forkDB p)) i \<noteq> None \<Longrightarrow>
     sentChainSegment p ids doingRedos \<noteq> Panic"
proof (induction ids)
  case Nil
  then show ?case by simp
next
  case (Cons i ids)
  obtain node fb where "BlockForID (forkDB p) i = Some node" "deref p (Object node) = Some fb"
    using linked_deref [OF Cons.prems(1), of i] Cons.prems(2) by auto
  then show ?case
    using Cons by (auto split: go.splits)
qed

lemma sentChainSegment_panics:
  "i \<in> set ids \<Longrightarrow> BlockForID (forkDB p) i = None \<Longrightarrow> sentChainSegment p ids doingRedos = Panic"
  by (induction ids) (auto split: option.splits go.splits)

lemma sentChainSwitchSegments_returns:
  assumes "linkedObjects p"
  shows "sentChainSwitchSegments p cur prev \<noteq> Panic"
proof (cases "cur = prev")
  case True
  then show ?thesis by (simp add: sentChainSwitchSegments_def)
next
  case False
  obtain u r where c: "ChainSwitchSegments (forkDB p) cur prev = (u, r)"
    by (cases "ChainSwitchSegments (forkDB p) cur prev") auto
  have "\<forall>i\<in>set u. map_of (links (forkDB p)) i \<noteq> None"
       "\<forall>i\<in>set r. map_of (links (forkDB p)) i \<noteq> None"
    using ChainSwitchSegments_linked [OF c] by blast+
  then have "sentChainSegment p u False \<noteq> Panic" "sentChainSegment p r True \<noteq> Panic"
    using assms sentChainSegment_returns by blast+
  then show ?thesis
    using False c by (auto simp: sentChainSwitchSegments_def split: go.splits)
qed

lemma precomputeSegments_returns:
  "linkedObjects p \<Longrightarrow> precomputeSegments p triggers blk \<noteq> Panic"
  using sentChainSwitchSegments_returns
  by (auto simp: precomputeSegments_def split: option.splits)


lemma markSent_frame [simp]:
  "forkDB (markSent p a fb) = forkDB p"
  "length (store (markSent p a fb)) = length (store p)"
  "includeInitialLIB (markSent p a fb) = includeInitialLIB p"
  "keptFinalBlocks (markSent p a fb) = keptFinalBlocks p"
  "filterSteps (markSent p a fb) = filterSteps p"
  "lastBlockSent (markSent p a fb) = Some (Block fb)"
  by (simp_all add: markSent_def blockFlowed_def)

lemma processNewBlocks_loop_frame:
  "processNewBlocks_loop h hdRef bs p log = (r, p', log') \<Longrightarrow>
     forkDB p' = forkDB p \<and> length (store p') = length (store p)
     \<and> includeInitialLIB p' = includeInitialLIB p \<and> keptFinalBlocks p' = keptFinalBlocks p
     \<and> filterSteps p' = filterSteps p
     \<and> (lastBlockSent p \<noteq> None \<longrightarrow> lastBlockSent p' \<noteq> None)"
proof (induction bs arbitrary: p log)
  case Nil
  then show ?case by auto
next
  case (Cons b bs)
  show ?case
  proof (cases "deref p (Object b)")
    case None
    with Cons.prems show ?thesis by auto
  next
    case (Some fb)
    show ?thesis
      using Cons.prems Some Cons.IH [of p log]
            Cons.IH [of "markSent p (the (Object b)) fb" "log @ [e]" for e]
            Cons.IH [of "markSent p (the (Object b)) fb" log]
      by (auto simp: Let_def matchFilter_def split: if_splits option.splits)
  qed
qed

text \<open>What a call leaves alone: the emission procedures never touch the links,
  and the only change of the fork database after linking is the move of the LIB
  with its purge.\<close>

lemma processNewBlocks_frame:
  "processNewBlocks h p log chain = (r, p', log') \<Longrightarrow>
     forkDB p' = forkDB p \<and> length (store p') = length (store p)
     \<and> includeInitialLIB p' = includeInitialLIB p \<and> keptFinalBlocks p' = keptFinalBlocks p
     \<and> filterSteps p' = filterSteps p
     \<and> (lastBlockSent p \<noteq> None \<longrightarrow> lastBlockSent p' \<noteq> None)"
  by (auto simp: processNewBlocks_def split: if_splits dest: processNewBlocks_loop_frame)

lemma processIrreversibleSegment_frame:
  "processIrreversibleSegment h p log seg hb = (r, p', log') \<Longrightarrow>
     forkDB p' = forkDB p \<and> store p' = store p
     \<and> includeInitialLIB p' = includeInitialLIB p \<and> keptFinalBlocks p' = keptFinalBlocks p
     \<and> filterSteps p' = filterSteps p \<and> lastBlockSent p' = lastBlockSent p"
  by (auto simp: processIrreversibleSegment_def Let_def
           split: option.splits prod.splits if_splits)


lemma processInitial_cases:
  assumes "processInitialInclusiveIrreversibleBlock h p log blk obj True = (r, p', log')"
  shows "\<exists>r1 p1 log1.
           processNewBlocks h (p\<lparr>store := store p @ [\<lparr>Block = blk, Obj = obj, sentAsNew = False\<rparr>]\<rparr>)
             log [\<lparr>BlockID = Id' blk, BlockNum = Number blk, PreviousBlockID = [],
                   Object = Some (length (store p))\<rparr>] = (r1, p1, log1)
           \<and> ((r1 \<noteq> Return None \<and> (r, p', log') = (r1, p1, log1))
               \<or> (r1 = Return None
                   \<and> processIrreversibleSegment h p1 log1
                        [\<lparr>BlockID = Id' blk, BlockNum = Number blk, PreviousBlockID = [],
                          Object = Some (length (store p))\<rparr>] (AsRef blk) = (r, p', log')))"
proof -
  let ?p0 = "p\<lparr>store := store p @ [\<lparr>Block = blk, Obj = obj, sentAsNew = False\<rparr>]\<rparr>"
  let ?tiny = "[\<lparr>BlockID = Id' blk, BlockNum = Number blk, PreviousBlockID = [],
                Object = Some (length (store p))\<rparr>]"
  obtain r1 p1 log1 where n: "processNewBlocks h ?p0 log ?tiny = (r1, p1, log1)"
    by (cases "processNewBlocks h ?p0 log ?tiny") auto
  have res: "(r, p', log') = (case r1 of
            Return None \<Rightarrow> processIrreversibleSegment h p1 log1 ?tiny (AsRef blk)
          | _ \<Rightarrow> (r1, p1, log1))"
    using assms n by (simp add: processInitialInclusiveIrreversibleBlock_def Let_def)
  show ?thesis
  proof (cases "r1 = Return None")
    case True
    then show ?thesis using res n by simp
  next
    case False
    then have "(r, p', log') = (r1, p1, log1)"
      using res by (auto split: go.splits option.splits)
    then show ?thesis using False n by simp
  qed
qed

lemma processInitial_frame:
  assumes "processInitialInclusiveIrreversibleBlock h p log blk obj True = (r, p', log')"
  shows "forkDB p' = forkDB p \<and> length (store p') = Suc (length (store p))
     \<and> includeInitialLIB p' = includeInitialLIB p \<and> keptFinalBlocks p' = keptFinalBlocks p
     \<and> filterSteps p' = filterSteps p
     \<and> (lastBlockSent p \<noteq> None \<longrightarrow> lastBlockSent p' \<noteq> None)"
proof -
  let ?p0 = "p\<lparr>store := store p @ [\<lparr>Block = blk, Obj = obj, sentAsNew = False\<rparr>]\<rparr>"
  let ?tiny = "[\<lparr>BlockID = Id' blk, BlockNum = Number blk, PreviousBlockID = [],
                Object = Some (length (store p))\<rparr>]"
  obtain r1 p1 log1 where
    n: "processNewBlocks h ?p0 log ?tiny = (r1, p1, log1)" and
    c: "(r1 \<noteq> Return None \<and> (r, p', log') = (r1, p1, log1))
        \<or> (r1 = Return None
            \<and> processIrreversibleSegment h p1 log1 ?tiny (AsRef blk) = (r, p', log'))"
    using processInitial_cases [OF assms] by blast
  have f1: "forkDB p1 = forkDB p \<and> length (store p1) = Suc (length (store p))
     \<and> includeInitialLIB p1 = includeInitialLIB p \<and> keptFinalBlocks p1 = keptFinalBlocks p
     \<and> filterSteps p1 = filterSteps p
     \<and> (lastBlockSent p \<noteq> None \<longrightarrow> lastBlockSent p1 \<noteq> None)"
    using processNewBlocks_frame [OF n] by simp
  from c show ?thesis
  proof
    assume "r1 \<noteq> Return None \<and> (r, p', log') = (r1, p1, log1)"
    then show ?thesis using f1 by simp
  next
    assume "r1 = Return None
            \<and> processIrreversibleSegment h p1 log1 ?tiny (AsRef blk) = (r, p', log')"
    then have "processIrreversibleSegment h p1 log1 ?tiny (AsRef blk) = (r, p', log')" by simp
    from processIrreversibleSegment_frame [OF this] f1 show ?thesis by simp
  qed
qed


lemma advanceLIB_cases:
  assumes "advanceLIB h p log blk first = (r, p', log')"
  shows "(r, p', log') = (Return None, p, log)
         \<or> (lastBlockSent p \<noteq> None
             \<and> (\<exists>l irr r2 log2.
                   processIrreversibleSegment h
                     (p\<lparr>forkDB := PurgeBeforeLIB (MoveLIB (forkDB p) l) (keptFinalBlocks p)\<rparr>)
                     log irr (AsRef blk) = (r2, p', log2)))"
proof (cases "(r, p', log') = (Return None, p, log)")
  case True
  then show ?thesis by simp
next
  case False
  obtain nh where nh: "lastBlockSent p = Some nh"
    using assms False by (cases "lastBlockSent p") (auto simp: advanceLIB_def)
  let ?l = "BlockInCurrentChain (forkDB p) (AsRef nh) (LibNum nh)"
  let ?p1 = "p\<lparr>forkDB := PurgeBeforeLIB (MoveLIB (forkDB p) ?l) (keptFinalBlocks p)\<rparr>"
  obtain hasNew irr0 stalled where
    hn: "HasNewIrreversibleSegment (forkDB p) ?l = (hasNew, irr0, stalled)"
    by (cases "HasNewIrreversibleSegment (forkDB p) ?l") auto
  let ?irr = "(case first of None \<Rightarrow> irr0 | Some f \<Rightarrow> irr0 @ [f])"
  obtain r2 p2 log2 where
    i: "processIrreversibleSegment h ?p1 log ?irr (AsRef blk) = (r2, p2, log2)"
    by (cases "processIrreversibleSegment h ?p1 log ?irr (AsRef blk)") auto
  have res: "(r, p', log') =
               (case (r2, p2, log2) of
                  (Return None, p2, log2) \<Rightarrow>
                    (let (r, log3) = processStalledSegment h p2 log2 stalled (AsRef blk)
                     in (r, p2, log3))
                | other \<Rightarrow> other)"
    using assms False nh hn i
    by (simp add: advanceLIB_def Let_def split: if_splits)
  have "p' = p2"
    using res by (auto split: go.splits option.splits prod.splits)
  then show ?thesis
    using i nh by blast
qed

lemma advanceLIB_frame:
  assumes "advanceLIB h p log blk first = (r, p', log')"
  shows "length (store p') = length (store p)
     \<and> includeInitialLIB p' = includeInitialLIB p \<and> keptFinalBlocks p' = keptFinalBlocks p
     \<and> filterSteps p' = filterSteps p \<and> lastBlockSent p' = lastBlockSent p
     \<and> (forkDB p' = forkDB p
         \<or> (lastBlockSent p \<noteq> None
             \<and> (\<exists>l. forkDB p' = PurgeBeforeLIB (MoveLIB (forkDB p) l) (keptFinalBlocks p))))"
  using advanceLIB_cases [OF assms]
proof
  assume "(r, p', log') = (Return None, p, log)"
  then show ?thesis by simp
next
  assume "lastBlockSent p \<noteq> None
             \<and> (\<exists>l irr r2 log2.
                   processIrreversibleSegment h
                     (p\<lparr>forkDB := PurgeBeforeLIB (MoveLIB (forkDB p) l) (keptFinalBlocks p)\<rparr>)
                     log irr (AsRef blk) = (r2, p', log2))"
  then obtain l irr r2 log2 where
    s: "lastBlockSent p \<noteq> None" and
    i: "processIrreversibleSegment h
          (p\<lparr>forkDB := PurgeBeforeLIB (MoveLIB (forkDB p) l) (keptFinalBlocks p)\<rparr>)
          log irr (AsRef blk) = (r2, p', log2)"
    by blast
  from processIrreversibleSegment_frame [OF i] s show ?thesis by auto
qed

lemma emitSteps_cases:
  assumes "emitSteps h p log blk chain undos redos first = (r, p', log')"
  shows "p' = p
         \<or> (\<exists>l2 r3 p3 log3.
               processNewBlocks h p l2 chain = (r3, p3, log3)
               \<and> (p' = p3 \<or> advanceLIB h p3 log3 blk first = (r, p', log')))"
proof -
  obtain r1 log1 where
    u: "(if matchFilter p StepUndo then processBlocks h p log (AsRef blk) undos StepUndo
         else (Return None, log)) = (r1, log1)"
    by (cases "if matchFilter p StepUndo then processBlocks h p log (AsRef blk) undos StepUndo
               else (Return None, log)") auto
  obtain r2 log2 where
    d: "(if matchFilter p StepNew then processBlocks h p log1 (AsRef blk) redos StepNew
         else (Return None, log1)) = (r2, log2)"
    by (cases "if matchFilter p StepNew then processBlocks h p log1 (AsRef blk) redos StepNew
               else (Return None, log1)") auto
  obtain r3 p3 log3 where n: "processNewBlocks h p log2 chain = (r3, p3, log3)"
    by (cases "processNewBlocks h p log2 chain") auto
  show ?thesis
  proof (cases "r1 = Return None \<and> r2 = Return None")
    case False
    then have "p' = p"
      using assms u d
      by (auto simp: emitSteps_def Let_def split: go.splits option.splits)
    then show ?thesis by simp
  next
    case True
    then have res: "(r, p', log') =
                      (case (r3, p3, log3) of
                         (Return None, p3, log3) \<Rightarrow> advanceLIB h p3 log3 blk first
                       | other \<Rightarrow> other)"
      using assms u d n by (simp add: emitSteps_def Let_def)
    have "p' = p3 \<or> advanceLIB h p3 log3 blk first = (r, p', log')"
      using res by (auto split: go.splits option.splits)
    then show ?thesis using n by blast
  qed
qed

lemma emitSteps_frame:
  assumes "emitSteps h p log blk chain undos redos first = (r, p', log')"
  shows "length (store p') = length (store p)
     \<and> includeInitialLIB p' = includeInitialLIB p \<and> keptFinalBlocks p' = keptFinalBlocks p
     \<and> filterSteps p' = filterSteps p
     \<and> (lastBlockSent p \<noteq> None \<longrightarrow> lastBlockSent p' \<noteq> None)
     \<and> (forkDB p' = forkDB p
         \<or> (lastBlockSent p' \<noteq> None
             \<and> (\<exists>l. forkDB p' = PurgeBeforeLIB (MoveLIB (forkDB p) l) (keptFinalBlocks p))))"
  using emitSteps_cases [OF assms]
proof
  assume "p' = p"
  then show ?thesis by simp
next
  assume "\<exists>l2 r3 p3 log3.
               processNewBlocks h p l2 chain = (r3, p3, log3)
               \<and> (p' = p3 \<or> advanceLIB h p3 log3 blk first = (r, p', log'))"
  then obtain l2 r3 p3 log3 where
    n: "processNewBlocks h p l2 chain = (r3, p3, log3)" and
    c: "p' = p3 \<or> advanceLIB h p3 log3 blk first = (r, p', log')"
    by blast
  note f = processNewBlocks_frame [OF n]
  from c show ?thesis
  proof
    assume "p' = p3"
    then show ?thesis using f by simp
  next
    assume a: "advanceLIB h p3 log3 blk first = (r, p', log')"
    from advanceLIB_frame [OF a] f show ?thesis by auto
  qed
qed

lemma trackUnlinkable_cases:
  assumes "trackUnlinkable h p log blk a triggers undos redos first = (r, p', log')"
  shows "\<exists>q. forkDB q = forkDB p \<and> store q = store p
             \<and> includeInitialLIB q = includeInitialLIB p
             \<and> keptFinalBlocks q = keptFinalBlocks p \<and> filterSteps q = filterSteps p
             \<and> lastBlockSent q = lastBlockSent p
             \<and> (p' = q \<or> (\<exists>chain. emitSteps h q log blk chain undos redos first = (r, p', log')))"
proof -
  let ?c = "fst (computeNewLongestChain p a blk)"
  let ?p1 = "snd (computeNewLongestChain p a blk)"
  let ?u = "(?c = None \<and> HasLIB (forkDB ?p1))"
  let ?p2 = "(if ?u
                then ?p1\<lparr>consecutiveUnlinkableBlocks := consecutiveUnlinkableBlocks ?p1 + 1\<rparr>
                else ?p1\<lparr>consecutiveUnlinkableBlocks := 0\<rparr>)"
  have q: "forkDB ?p2 = forkDB p \<and> store ?p2 = store p
             \<and> includeInitialLIB ?p2 = includeInitialLIB p
             \<and> keptFinalBlocks ?p2 = keptFinalBlocks p \<and> filterSteps ?p2 = filterSteps p
             \<and> lastBlockSent ?p2 = lastBlockSent p"
    by (simp add: computeNewLongestChain_def Let_def)
  have "p' = ?p2 \<or> emitSteps h ?p2 log blk (the ?c) undos redos first = (r, p', log')"
    using assms
    by (simp add: trackUnlinkable_def Let_def split_beta split: if_splits)
  then show ?thesis using q by blast
qed

lemma trackUnlinkable_frame:
  assumes "trackUnlinkable h p log blk a triggers undos redos first = (r, p', log')"
  shows "length (store p') = length (store p)
     \<and> includeInitialLIB p' = includeInitialLIB p \<and> keptFinalBlocks p' = keptFinalBlocks p
     \<and> filterSteps p' = filterSteps p
     \<and> (lastBlockSent p \<noteq> None \<longrightarrow> lastBlockSent p' \<noteq> None)
     \<and> (forkDB p' = forkDB p
         \<or> (lastBlockSent p' \<noteq> None
             \<and> (\<exists>l. forkDB p' = PurgeBeforeLIB (MoveLIB (forkDB p) l) (keptFinalBlocks p))))"
proof -
  obtain q where
    q: "forkDB q = forkDB p" "store q = store p" "includeInitialLIB q = includeInitialLIB p"
       "keptFinalBlocks q = keptFinalBlocks p" "filterSteps q = filterSteps p"
       "lastBlockSent q = lastBlockSent p" and
    c: "p' = q \<or> (\<exists>chain. emitSteps h q log blk chain undos redos first = (r, p', log'))"
    using trackUnlinkable_cases [OF assms] by blast
  from c show ?thesis
  proof
    assume "p' = q"
    then show ?thesis using q by simp
  next
    assume "\<exists>chain. emitSteps h q log blk chain undos redos first = (r, p', log')"
    then obtain chain where e: "emitSteps h q log blk chain undos redos first = (r, p', log')"
      by blast
    from emitSteps_frame [OF e] q show ?thesis by simp
  qed
qed

text \<open>The consistency of the fork database is kept by every call, hence along
  every run.\<close>

lemma linkedObjects_maps:
  "linkedObjects p \<Longrightarrow> links (forkDB p') = links (forkDB p) \<Longrightarrow>
     nums (forkDB p') = nums (forkDB p) \<Longrightarrow> objects (forkDB p') = objects (forkDB p) \<Longrightarrow>
     length (store p) \<le> length (store p') \<Longrightarrow> linkedObjects p'"
  by (auto simp: linkedObjects_def list_all_iff)

lemma linkedObjects_frame:
  "linkedObjects p \<Longrightarrow> forkDB p' = forkDB p \<Longrightarrow> length (store p) \<le> length (store p') \<Longrightarrow>
     linkedObjects p'"
  by (rule linkedObjects_maps) simp_all

lemma SetLIB_maps:
  "links (SetLIB db blk prev n) = links db"
  "nums (SetLIB db blk prev n) = nums db"
  "objects (SetLIB db blk prev n) = objects db"
  by (simp_all add: SetLIB_def split: option.splits)

lemma keys_filter: "map fst (filter (\<lambda>kv. P (fst kv)) xs) = filter P (map fst xs)"
  by (induction xs) auto

lemma linkedObjects_purge:
  assumes "linkedObjects p"
      and "forkDB p' = PurgeBeforeLIB (MoveLIB (forkDB p) l) k"
      and "length (store p') = length (store p)"
  shows "linkedObjects p'"
  using assms
  by (auto simp: linkedObjects_def PurgeBeforeLIB_def MoveLIB_def keys_filter list_all_iff)

lemma linkedObjects_AddLink:
  assumes "linkedObjects p"
      and "AddLink (forkDB p) blk prev (length (store p)) = (db, False)"
  shows "linkedObjects (p\<lparr>forkDB := db, store := store p @ [x]\<rparr>)"
  using assms
  by (auto simp: AddLink_def linkedObjects_def list_all_iff less_Suc_eq split: if_splits)

lemma bootstrapLIB_Inl:
  assumes "bootstrapLIB h p log blk obj a t u rd = Inl (r, p', log')"
  shows "\<not> HasLIB (forkDB p)
         \<and> ((HasLIB (SetLIB (forkDB p) blk (PreviousId blk) (LibNum blk))
              \<and> ref_num (libRef (SetLIB (forkDB p) blk (PreviousId blk) (LibNum blk))) = Number blk
              \<and> processInitialInclusiveIrreversibleBlock h
                  (p\<lparr>forkDB := SetLIB (forkDB p) blk (PreviousId blk) (LibNum blk)\<rparr>)
                  log blk obj True = (r, p', log'))
             \<or> (\<not> HasLIB (SetLIB (forkDB p) blk (PreviousId blk) (LibNum blk))
                 \<and> r = Return None
                 \<and> p' = p\<lparr>forkDB := SetLIB (forkDB p) blk (PreviousId blk) (LibNum blk)\<rparr>
                 \<and> log' = log))"
  using assms by (auto simp: bootstrapLIB_def Let_def split: if_splits)

lemma bootstrapLIB_Inr:
  assumes "bootstrapLIB h p log blk obj a t u rd = Inr (p0, x)"
  shows "(HasLIB (forkDB p) \<and> p0 = p)
         \<or> (\<not> HasLIB (forkDB p)
             \<and> p0 = p\<lparr>forkDB := SetLIB (forkDB p) blk (PreviousId blk) (LibNum blk)\<rparr>
             \<and> (HasLIB (SetLIB (forkDB p) blk (PreviousId blk) (LibNum blk)) \<longrightarrow>
                  ref_num (libRef (SetLIB (forkDB p) blk (PreviousId blk) (LibNum blk)))
                    \<noteq> Number blk))"
  using assms by (auto simp: bootstrapLIB_def Let_def split: if_splits)

lemma SetLIB_linked:
  "linkedObjects p \<Longrightarrow> linkedObjects (p\<lparr>forkDB := SetLIB (forkDB p) blk prev n\<rparr>)"
  by (simp add: linkedObjects_def SetLIB_maps)

lemma processInitial_linked:
  assumes "linkedObjects p"
      and "processInitialInclusiveIrreversibleBlock h p log blk obj True = (r, p', log')"
  shows "linkedObjects p'"
  using assms(1)
proof (rule linkedObjects_frame)
  show "forkDB p' = forkDB p" using processInitial_frame [OF assms(2)] by simp
  show "length (store p) \<le> length (store p')" using processInitial_frame [OF assms(2)] by simp
qed

lemma bootstrapLIB_linked_Inl:
  assumes "linkedObjects p"
      and "bootstrapLIB h p log blk obj a t u rd = Inl (r, p', log')"
  shows "linkedObjects p'"
proof -
  let ?p1 = "p\<lparr>forkDB := SetLIB (forkDB p) blk (PreviousId blk) (LibNum blk)\<rparr>"
  have l1: "linkedObjects ?p1" using assms(1) by (rule SetLIB_linked)
  from bootstrapLIB_Inl [OF assms(2), THEN conjunct2] show ?thesis
  proof (elim disjE conjE)
    assume "processInitialInclusiveIrreversibleBlock h ?p1 log blk obj True = (r, p', log')"
    with l1 show ?thesis by (rule processInitial_linked)
  next
    assume "p' = ?p1"
    with l1 show ?thesis by simp
  qed
qed

lemma bootstrapLIB_linked_Inr:
  assumes "linkedObjects p"
      and "bootstrapLIB h p log blk obj a t u rd = Inr (p0, x)"
  shows "linkedObjects p0"
proof -
  let ?p1 = "p\<lparr>forkDB := SetLIB (forkDB p) blk (PreviousId blk) (LibNum blk)\<rparr>"
  have l1: "linkedObjects ?p1" using assms(1) by (rule SetLIB_linked)
  from bootstrapLIB_Inr [OF assms(2)] show ?thesis
  proof (elim disjE conjE)
    assume "p0 = p"
    with assms(1) show ?thesis by simp
  next
    assume "p0 = ?p1"
    with l1 show ?thesis by simp
  qed
qed

lemma insertBlock_Inl:
  assumes "insertBlock h p log blk obj t u rd = Inl res"
  shows "(map_of (links (forkDB p)) (Id' blk) \<noteq> None \<and> res = (Return None, p, log))
      \<or> (map_of (links (forkDB p)) (Id' blk) = None
          \<and> bootstrapLIB h
               (p\<lparr>forkDB := fst (AddLink (forkDB p) blk (PreviousId blk) (length (store p))),
                  store := store p @ [\<lparr>Block = blk, Obj = obj, sentAsNew = False\<rparr>]\<rparr>)
               log blk obj (length (store p)) t u rd = Inl res)"
  using assms by (auto simp: insertBlock_def AddLink_def Let_def split: if_splits)

lemma insertBlock_Inr:
  assumes "insertBlock h p log blk obj t u rd = Inr lk"
  shows "map_of (links (forkDB p)) (Id' blk) = None
        \<and> bootstrapLIB h
               (p\<lparr>forkDB := fst (AddLink (forkDB p) blk (PreviousId blk) (length (store p))),
                  store := store p @ [\<lparr>Block = blk, Obj = obj, sentAsNew = False\<rparr>]\<rparr>)
               log blk obj (length (store p)) t u rd = Inr lk"
  using assms by (auto simp: insertBlock_def AddLink_def Let_def split: if_splits)

lemma inserted_linked:
  assumes "linkedObjects p" and "map_of (links (forkDB p)) (Id' blk) = None"
  shows "linkedObjects
           (p\<lparr>forkDB := fst (AddLink (forkDB p) blk (PreviousId blk) (length (store p))),
              store := store p @ [x]\<rparr>)"
proof -
  have "AddLink (forkDB p) blk (PreviousId blk) (length (store p))
          = (fst (AddLink (forkDB p) blk (PreviousId blk) (length (store p))), False)"
    using assms(2) by (simp add: AddLink_def)
  from linkedObjects_AddLink [OF assms(1) this] show ?thesis .
qed

lemma insertBlock_linked_Inl:
  assumes "linkedObjects p"
      and "insertBlock h p log blk obj t u rd = Inl (r, p', log')"
  shows "linkedObjects p'"
  using insertBlock_Inl [OF assms(2)]
proof (elim disjE conjE)
  assume "(r, p', log') = (Return None, p, log)"
  with assms(1) show ?thesis by simp
next
  assume n: "map_of (links (forkDB p)) (Id' blk) = None"
     and b: "bootstrapLIB h
               (p\<lparr>forkDB := fst (AddLink (forkDB p) blk (PreviousId blk) (length (store p))),
                  store := store p @ [\<lparr>Block = blk, Obj = obj, sentAsNew = False\<rparr>]\<rparr>)
               log blk obj (length (store p)) t u rd = Inl (r, p', log')"
  from inserted_linked [OF assms(1) n] b show ?thesis
    by (rule bootstrapLIB_linked_Inl)
qed

lemma insertBlock_linked_Inr:
  assumes "linkedObjects p"
      and "insertBlock h p log blk obj t u rd = Inr (p0, x)"
  shows "linkedObjects p0"
proof -
  from insertBlock_Inr [OF assms(2)] have
    n: "map_of (links (forkDB p)) (Id' blk) = None" and
    b: "bootstrapLIB h
               (p\<lparr>forkDB := fst (AddLink (forkDB p) blk (PreviousId blk) (length (store p))),
                  store := store p @ [\<lparr>Block = blk, Obj = obj, sentAsNew = False\<rparr>]\<rparr>)
               log blk obj (length (store p)) t u rd = Inr (p0, x)"
    by simp_all
  from inserted_linked [OF assms(1) n] b show ?thesis
    by (rule bootstrapLIB_linked_Inr)
qed

lemma linkStage_Inl:
  assumes "linkStage h p log blk obj = Inl res"
  shows "res = (Return (Some InvalidBlockID), p, log)
      \<or> (Id' blk \<noteq> PreviousId blk
          \<and> res = (Return None, p, log)
          \<and> Number blk < LIBNum (forkDB p) \<and> lastBlockSent p \<noteq> None)
      \<or> res = (Panic, p, log)
      \<or> (Id' blk \<noteq> PreviousId blk
          \<and> includeInitialLIB p \<and> lastBlockSent p = None \<and> Id' blk = LIBID (forkDB p)
          \<and> processInitialInclusiveIrreversibleBlock h p log blk obj True = res)
      \<or> (Id' blk \<noteq> PreviousId blk
          \<and> \<not> (Number blk < LIBNum (forkDB p) \<and> lastBlockSent p \<noteq> None)
          \<and> \<not> (includeInitialLIB p \<and> lastBlockSent p = None \<and> Id' blk = LIBID (forkDB p))
          \<and> (\<exists>u rd. precomputeSegments p (triggersNewLongestChain p blk) blk = Return (u, rd)
                     \<and> insertBlock h p log blk obj (triggersNewLongestChain p blk) u rd
                         = Inl res))"
  using assms
  by (auto simp: linkStage_def Let_def split: if_splits go.splits prod.splits)

lemma linkStage_Inr:
  assumes "linkStage h p log blk obj = Inr lk"
  shows "Id' blk \<noteq> PreviousId blk
        \<and> \<not> (Number blk < LIBNum (forkDB p) \<and> lastBlockSent p \<noteq> None)
        \<and> \<not> (includeInitialLIB p \<and> lastBlockSent p = None \<and> Id' blk = LIBID (forkDB p))
        \<and> (\<exists>u rd. precomputeSegments p (triggersNewLongestChain p blk) blk = Return (u, rd)
                   \<and> insertBlock h p log blk obj (triggersNewLongestChain p blk) u rd = Inr lk)"
  using assms
  by (auto simp: linkStage_def Let_def split: if_splits go.splits prod.splits)

lemma linkStage_linked_Inl:
  assumes "linkedObjects p"
      and "linkStage h p log blk obj = Inl (r, p', log')"
  shows "linkedObjects p'"
  using linkStage_Inl [OF assms(2)]
proof (elim disjE conjE exE)
  assume "(r, p', log') = (Return (Some InvalidBlockID), p, log)"
  with assms(1) show ?thesis by simp
next
  assume "(r, p', log') = (Return None, p, log)"
  with assms(1) show ?thesis by simp
next
  assume "(r, p', log') = (Panic, p, log)"
  with assms(1) show ?thesis by simp
next
  assume "processInitialInclusiveIrreversibleBlock h p log blk obj True = (r, p', log')"
  with assms(1) show ?thesis by (rule processInitial_linked)
next
  fix u rd
  assume "insertBlock h p log blk obj (triggersNewLongestChain p blk) u rd = Inl (r, p', log')"
  with assms(1) show ?thesis by (rule insertBlock_linked_Inl)
qed

lemma linkStage_linked_Inr:
  assumes "linkedObjects p"
      and "linkStage h p log blk obj = Inr (p0, x)"
  shows "linkedObjects p0"
proof -
  from linkStage_Inr [OF assms(2)] obtain u rd where
    "insertBlock h p log blk obj (triggersNewLongestChain p blk) u rd = Inr (p0, x)"
    by (elim conjE exE)
  with assms(1) show ?thesis by (rule insertBlock_linked_Inr)
qed

lemma ProcessBlock_linked:
  assumes "linkedObjects p" and "ProcessBlock h p log blk obj = (r, p', log')"
  shows "linkedObjects p'"
proof (cases "linkStage h p log blk obj")
  case (Inl res)
  then have "linkStage h p log blk obj = Inl (r, p', log')"
    using assms(2) by (simp add: ProcessBlock_def)
  with assms(1) show ?thesis by (rule linkStage_linked_Inl)
next
  case (Inr lk)
  obtain p0 a t u rd first where lk: "lk = (p0, a, t, u, rd, first)"
    by (cases lk) auto
  have "linkStage h p log blk obj = Inr (p0, (a, t, u, rd, first))"
    using Inr lk by simp
  with assms(1) have l0: "linkedObjects p0" by (rule linkStage_linked_Inr)
  have tr: "trackUnlinkable h p0 log blk a t u rd first = (r, p', log')"
    using assms(2) Inr lk by (simp add: ProcessBlock_def)
  have len: "length (store p') = length (store p0)"
    using trackUnlinkable_frame [OF tr] by simp
  have "forkDB p' = forkDB p0
         \<or> (\<exists>l. forkDB p' = PurgeBeforeLIB (MoveLIB (forkDB p0) l) (keptFinalBlocks p0))"
    using trackUnlinkable_frame [OF tr] by blast
  then show ?thesis
  proof (elim disjE exE)
    assume e: "forkDB p' = forkDB p0"
    show ?thesis by (rule linkedObjects_frame [OF l0 e]) (simp add: len)
  next
    fix l
    assume e: "forkDB p' = PurgeBeforeLIB (MoveLIB (forkDB p0) l) (keptFinalBlocks p0)"
    show ?thesis by (rule linkedObjects_purge [OF l0 e len])
  qed
qed

lemma run_linked:
  "linkedObjects p \<Longrightarrow> run h p log bs = Return (p', log') \<Longrightarrow> linkedObjects p'"
proof (induction bs arbitrary: p log)
  case Nil
  then show ?case by simp
next
  case (Cons b bs)
  obtain r q l where pb: "ProcessBlock h p log (fst b) (snd b) = (r, q, l)"
    by (cases "ProcessBlock h p log (fst b) (snd b)") auto
  show ?case
  proof (cases r)
    case Panic
    then show ?thesis using Cons.prems(2) pb by simp
  next
    case (Return e)
    then have "run h q l bs = Return (p', log')"
      using Cons.prems(2) pb by simp
    moreover have "linkedObjects q"
      using ProcessBlock_linked [OF Cons.prems(1) pb] .
    ultimately show ?thesis by (rule Cons.IH [rotated])
  qed
qed

lemma initial_linked: "initial p \<Longrightarrow> linkedObjects p"
  by (simp add: initial_def linkedObjects_def)

lemma BlockForID_linked: "BlockForID db i \<noteq> None \<longleftrightarrow> map_of (links db) i \<noteq> None"
  by (simp add: BlockForID_def split: option.splits)

lemma linearState_run:
  "run quietHandler New [] (take 3 forkAndBack) = Return (linearState, linearLog)"
proof -
  have "run quietHandler New [] (take 3 forkAndBack) \<noteq> Panic"
    by code_simp
  then show ?thesis
    by (auto simp: linearState_def linearLog_def split: go.splits)
qed

lemma initial_New: "initial New"
  by (simp add: initial_def New_def NewForkDB_def)

text \<open>
  C9. In every state reached from a freshly built Forkable by calls to
  \<^verbatim>\<open>ProcessBlock\<close>, each id of the undo and redo segments that
  \<^verbatim>\<open>ChainSwitchSegments\<close> returns, for any pair of ids, resolves to a node of the
  fork database, so \<^verbatim>\<open>sentChainSwitchSegments\<close> and the precomputation of the
  segments in \<^verbatim>\<open>ProcessBlock\<close> do not panic. When the lookup of an id of a segment
  does fail, \<^verbatim>\<open>sentChainSegment\<close> panics: it does not return.
\<close>

theorem chain_switch_lookup_total:
  "(initial p0 \<and> run h p0 [] bs = Return (p, log) \<longrightarrow>
      (\<forall>i \<in> set (fst (ChainSwitchSegments (forkDB p) fromID toID))
             \<union> set (snd (ChainSwitchSegments (forkDB p) fromID toID)).
          BlockForID (forkDB p) i \<noteq> None)
      \<and> sentChainSwitchSegments p fromID toID \<noteq> Panic
      \<and> precomputeSegments p triggers blk \<noteq> Panic)
   \<and> (i \<in> set ids \<and> BlockForID (forkDB q) i = None \<longrightarrow>
        sentChainSegment q ids doingRedos = Panic)"
proof (intro conjI impI)
  assume a: "initial p0 \<and> run h p0 [] bs = Return (p, log)"
  then have l: "linkedObjects p"
    using run_linked [of p0 h "[]" bs p log] initial_linked by blast
  show "\<forall>i \<in> set (fst (ChainSwitchSegments (forkDB p) fromID toID))
             \<union> set (snd (ChainSwitchSegments (forkDB p) fromID toID)).
          BlockForID (forkDB p) i \<noteq> None"
    using ChainSwitchSegments_linked [of "forkDB p" fromID toID]
    by (metis BlockForID_linked prod.collapse)
  show "sentChainSwitchSegments p fromID toID \<noteq> Panic"
    using l by (rule sentChainSwitchSegments_returns)
  show "precomputeSegments p triggers blk \<noteq> Panic"
    using l by (rule precomputeSegments_returns)
next
  assume "i \<in> set ids \<and> BlockForID (forkDB q) i = None"
  then show "sentChainSegment q ids doingRedos = Panic"
    using sentChainSegment_panics by blast
qed

theorem chain_switch_lookup_total_witness:
  "initial New
   \<and> run quietHandler New [] (take 3 forkAndBack) = Return (linearState, linearLog)
   \<and> sentChainSwitchSegments linearState ''B3'' ''B1'' \<noteq> Panic
   \<and> precomputeSegments linearState True (fst (mkBlock ''B3x'' 3 ''B2'' 1)) \<noteq> Panic
   \<and> ''B9'' \<in> set [''B9'']
   \<and> BlockForID (forkDB New) ''B9'' = None
   \<and> sentChainSegment New [''B9''] False = Panic"
proof -
  have b: "BlockForID (forkDB New) ''B9'' = None"
    by (simp add: BlockForID_def New_def NewForkDB_def)
  note t = chain_switch_lookup_total
             [where ?p0.0 = New and h = quietHandler and bs = "take 3 forkAndBack"
                and p = linearState and log = linearLog
                and fromID = "''B3''" and toID = "''B1''"
                and triggers = True and blk = "fst (mkBlock ''B3x'' 3 ''B2'' 1)"
                and i = "''B9''" and ids = "[''B9'']" and q = New and doingRedos = False]
  from t initial_New linearState_run
  have "sentChainSwitchSegments linearState ''B3'' ''B1'' \<noteq> Panic"
    and "precomputeSegments linearState True (fst (mkBlock ''B3x'' 3 ''B2'' 1)) \<noteq> Panic"
    by blast+
  moreover from t b have "sentChainSegment New [''B9''] False = Panic"
    by simp
  ultimately show ?thesis
    using initial_New linearState_run b by simp
qed

subsection \<open>Blocks from a final block\<close>












subsection \<open>Processing the same block twice\<close>





lemma noLIB_id: "\<not> HasLIB db \<Longrightarrow> LIBID db = []"
  by (simp add: HasLIB_def IsEmpty_def LIBID_def)



















subsection \<open>The store and the log along a run\<close>

text \<open>What the ways of changing the store and the log keep: the log only grows;
  when New passes the filter, every flagged \<^verbatim>\<open>ForkableBlock\<close> stays logged; when the
  handler is accepting, the emissions of \<^verbatim>\<open>processNewBlocks\<close> for an id never
  outnumber the flagged \<^verbatim>\<open>ForkableBlock\<close>s of that id.\<close>

lemma evolves_log:
  "evolves acc nf s t \<Longrightarrow> set (snd s) \<subseteq> set (snd t)"
  by (induction rule: evolves.induct) auto


lemma filter_update_length:
  "a < length xs \<Longrightarrow>
     length (filter P (xs[a := y])) + (if P (xs ! a) then 1 else 0)
       = length (filter P xs) + (if P y then 1 else 0)"
proof (induction xs arbitrary: a)
  case Nil
  then show ?case by simp
next
  case (Cons x xs)
  show ?case
  proof (cases a)
    case 0
    then show ?thesis by simp
  next
    case (Suc k)
    then have "k < length xs" using Cons.prems by simp
    from Cons.IH [OF this] show ?thesis using Suc by simp
  qed
qed

lemma sentCount_flag:
  "sentCount i st \<le> sentCount i (st[a := (st ! a)\<lparr>sentAsNew := True\<rparr>])"
proof (cases "a < length st")
  case True
  from filter_update_length [OF True, of "\<lambda>fb. sentAsNew fb \<and> Id' (Block fb) = i"
                               "(st ! a)\<lparr>sentAsNew := True\<rparr>"]
  show ?thesis by (simp add: sentCount_def split: if_splits)
next
  case False
  then have "st[a := (st ! a)\<lparr>sentAsNew := True\<rparr>] = st"
    by (simp add: list_update_beyond)
  then show ?thesis by simp
qed

lemma sentCount_sent:
  assumes "a < length st" and "\<not> sentAsNew (st ! a)"
  shows "sentCount i (st[a := (st ! a)\<lparr>sentAsNew := True\<rparr>])
           = sentCount i st + (if Id' (Block (st ! a)) = i then 1 else 0)"
  using filter_update_length [OF assms(1), of "\<lambda>fb. sentAsNew fb \<and> Id' (Block fb) = i"
                                "(st ! a)\<lparr>sentAsNew := True\<rparr>"] assms(2)
  by (simp add: sentCount_def split: if_splits)

lemma evolves_counted:
  "evolves True nf s t \<Longrightarrow> newCount i (snd s) \<le> sentCount i (fst s) \<Longrightarrow>
     newCount i (snd t) \<le> sentCount i (fst t)"
proof (induction rule: evolves.induct)
  case (sent a st e log)
  then show ?case
    using sentCount_sent [of a st i] by (simp add: newCount_def)
next
  case (silent st log a)
  then show ?case
    using sentCount_flag [of i st a] by simp
qed (auto simp: newCount_def sentCount_def)

text \<open>Every procedure of the Forkable changes the store and the log in these
  ways only.\<close>

lemma segment_loop_evolves:
  assumes "\<And>fb b. step (mk fb b) \<noteq> StepNew"
  shows "segment_loop h mk idx xs log = (r, log') \<Longrightarrow> evolves acc nf (st, log) (st, log')"
proof (induction xs arbitrary: idx log)
  case Nil
  then show ?case by (simp add: evolves.same)
next
  case (Cons x xs)
  let ?e = "(Block (fst x), (mk (fst x) (snd x))\<lparr>StepIndex := idx\<rparr>)"
  have "\<not> newPath ?e" using assms by (simp add: newPath_def)
  then have s1: "evolves acc nf (st, log) (st, log @ [?e])" by (rule evolves.other)
  show ?case
  proof (cases "h log ?e")
    case None
    then have "segment_loop h mk (Suc idx) xs (log @ [?e]) = (r, log')"
      using Cons.prems by (simp add: Let_def)
    from s1 Cons.IH [OF this] show ?thesis by (rule evolves.chain)
  next
    case (Some err)
    then have "log' = log @ [?e]" using Cons.prems by (simp add: Let_def)
    then show ?thesis using s1 by simp
  qed
qed

lemma processBlocks_loop_evolves:
  assumes "\<not> (step fo0 = StepNew \<and> StepCount fo0 = 0)"
  shows "processBlocks_loop h st0 fo0 idx blks log = (r, log') \<Longrightarrow>
           evolves acc nf (st, log) (st, log')"
proof (induction blks arbitrary: idx log)
  case Nil
  then show ?case by (simp add: evolves.same)
next
  case (Cons x xs)
  let ?e = "(Block x, fo0\<lparr>WrappedObj := Obj x, block := AsRef (Block x), StepIndex := idx\<rparr>)"
  have "\<not> newPath ?e" using assms by (simp add: newPath_def)
  then have s1: "evolves acc nf (st, log) (st, log @ [?e])" by (rule evolves.other)
  show ?case
  proof (cases "h log ?e")
    case None
    then have "processBlocks_loop h st0 fo0 (Suc idx) xs (log @ [?e]) = (r, log')"
      using Cons.prems by (simp add: Let_def)
    from s1 Cons.IH [OF this] show ?thesis by (rule evolves.chain)
  next
    case (Some err)
    then have "log' = log @ [?e]" using Cons.prems by (simp add: Let_def)
    then show ?thesis using s1 by simp
  qed
qed

lemma processBlocks_evolves:
  assumes "processBlocks h p log cur blocks st0 = (r, log')"
  shows "evolves acc nf (st, log) (st, log')"
proof (cases "derefAll p (map Some blocks)")
  case None
  then have "log' = log" using assms by (simp add: processBlocks_def)
  then show ?thesis by (simp add: evolves.same)
next
  case (Some fbs)
  show ?thesis
  proof (cases "fbs = []")
    case True
    then have "log' = log" using assms Some by (simp add: processBlocks_def Let_def)
    then show ?thesis by (simp add: evolves.same)
  next
    case False
    let ?fo0 = "\<lparr>step = st0, StepCount = length fbs, StepIndex = 0,
                 StepBlocks = map (\<lambda>fb. (Block fb, Obj fb)) fbs,
                 headBlock = cur, block = BlockRefEmpty,
                 lastLIBSent = currentLIB p, WrappedObj = 0\<rparr>"
    obtain r0 where l: "processBlocks_loop h st0 ?fo0 0 fbs log = (r0, log')"
      using assms Some by (auto simp: processBlocks_def Let_def split: prod.splits)
    have "\<not> (step ?fo0 = StepNew \<and> StepCount ?fo0 = 0)" using False by simp
    from processBlocks_loop_evolves [OF this l] show ?thesis .
  qed
qed

lemma processIrreversibleSegment_evolves:
  assumes "processIrreversibleSegment h p log seg hb = (r, p', log')"
  shows "evolves acc nf (store p, log) (store p', log')"
proof -
  have s: "store p' = store p"
    using processIrreversibleSegment_frame [OF assms] by simp
  show ?thesis
  proof (cases "matchFilter p StepIrreversible")
    case False
    then have "log' = log" using assms by (simp add: processIrreversibleSegment_def Let_def)
    then show ?thesis using s by (simp add: evolves.same)
  next
    case True
    show ?thesis
    proof (cases "derefAll p (map Object seg)")
      case None
      then have "log' = log"
        using assms True by (simp add: processIrreversibleSegment_def Let_def)
      then show ?thesis using s by (simp add: evolves.same)
    next
      case (Some fbs)
      let ?mk = "\<lambda>fb (b :: fBlock).
                   \<lparr>step = StepIrreversible, StepCount = length seg, StepIndex = 0,
                    StepBlocks = map (\<lambda>fb. (Block fb, Obj fb)) fbs, headBlock = hb,
                    block = AsRef (Block fb), lastLIBSent = AsRef (Block fb),
                    WrappedObj = Obj fb\<rparr>"
      obtain r0 where l: "segment_loop h ?mk 0 (zip fbs seg) log = (r0, log')"
        using assms True Some
        by (auto simp: processIrreversibleSegment_def Let_def split: prod.splits option.splits)
      have "\<And>fb b. step (?mk fb b) \<noteq> StepNew" by simp
      from segment_loop_evolves [OF this l] show ?thesis using s by simp
    qed
  qed
qed

lemma processStalledSegment_evolves:
  assumes "processStalledSegment h p log seg hb = (r, log')"
  shows "evolves acc nf (st, log) (st, log')"
proof (cases "matchFilter p StepStalled")
  case False
  then have "log' = log" using assms by (simp add: processStalledSegment_def)
  then show ?thesis by (simp add: evolves.same)
next
  case True
  show ?thesis
  proof (cases "derefAll p (map Object seg)")
    case None
    then have "log' = log" using assms True by (simp add: processStalledSegment_def)
    then show ?thesis by (simp add: evolves.same)
  next
    case (Some fbs)
    let ?mk = "\<lambda>(fb :: ForkableBlock) b.
                 \<lparr>step = StepStalled, StepCount = length seg, StepIndex = 0,
                  StepBlocks = map (\<lambda>fb. (Block fb, Obj fb)) fbs, headBlock = hb,
                  block = fAsRef b, lastLIBSent = lastLIBSeen p, WrappedObj = Obj fb\<rparr>"
    obtain r0 where l: "segment_loop h ?mk 0 (zip fbs seg) log = (r0, log')"
      using assms True Some
      by (auto simp: processStalledSegment_def Let_def split: prod.splits)
    have "\<And>fb b. step (?mk fb b) \<noteq> StepNew" by simp
    from segment_loop_evolves [OF this l] show ?thesis .
  qed
qed

lemma markSent_store:
  "store (markSent p a fb) = (store p)[a := fb\<lparr>sentAsNew := True\<rparr>]"
  by (simp add: markSent_def blockFlowed_def)

lemma processNewBlocks_loop_evolves:
  "processNewBlocks_loop h hdRef bs p log = (r, p', log') \<Longrightarrow> filterSteps p = F \<Longrightarrow>
     evolves (accepting h) (StepNew \<in> F) (store p, log) (store p', log')"
proof (induction bs arbitrary: p log)
  case Nil
  then show ?case by (simp add: evolves.same)
next
  case (Cons b bs)
  show ?case
  proof (cases "deref p (Object b)")
    case None
    then have "p' = p \<and> log' = log" using Cons.prems(1) by simp
    then show ?thesis by (simp add: evolves.same)
  next
    case (Some fb)
    then obtain a where a: "Object b = Some a" "a < length (store p)" "store p ! a = fb"
      by (auto simp: deref_def split: option.splits if_splits)
    show ?thesis
    proof (cases "sentAsNew fb")
      case True
      then have "processNewBlocks_loop h hdRef bs p log = (r, p', log')"
        using Cons.prems(1) Some by simp
      from Cons.IH [OF this Cons.prems(2)] show ?thesis .
    next
      case False
      let ?q = "markSent p a fb"
      have sq: "store ?q = (store p)[a := (store p ! a)\<lparr>sentAsNew := True\<rparr>]"
        using a by (simp add: markSent_store)
      have fq: "filterSteps ?q = F" using Cons.prems(2) by simp
      have unf: "\<not> sentAsNew (store p ! a)" using False a by simp
      show ?thesis
      proof (cases "matchFilter p StepNew")
        case nin: False
        then have "processNewBlocks_loop h hdRef bs ?q log = (r, p', log')"
          using Cons.prems(1) Some False a by simp
        from Cons.IH [OF this fq]
        have t: "evolves (accepting h) (StepNew \<in> F) (store ?q, log) (store p', log')" .
        have "\<not> (StepNew \<in> F)" using nin Cons.prems(2) by (simp add: matchFilter_def)
        then have "evolves (accepting h) (StepNew \<in> F) (store p, log) (store ?q, log)"
          unfolding sq by (rule evolves.silent)
        from this t show ?thesis by (rule evolves.chain)
      next
        case True
        let ?e = "(Block fb,
                   \<lparr>step = StepNew, StepCount = 0, StepIndex = 0, StepBlocks = [],
                    headBlock = hdRef, block = fAsRef b, lastLIBSent = currentLIB p,
                    WrappedObj = Obj fb\<rparr>)"
        have np: "newPath ?e" by (simp add: newPath_def)
        show ?thesis
        proof (cases "h log ?e")
          case None
          then have "processNewBlocks_loop h hdRef bs ?q (log @ [?e]) = (r, p', log')"
            using Cons.prems(1) Some False True a by (simp add: Let_def)
          from Cons.IH [OF this fq]
          have t: "evolves (accepting h) (StepNew \<in> F) (store ?q, log @ [?e]) (store p', log')" .
          have "fst ?e = Block (store p ! a)" using a by simp
          with a(2) unf np
          have "evolves (accepting h) (StepNew \<in> F) (store p, log) (store ?q, log @ [?e])"
            unfolding sq by (rule evolves.sent)
          from this t show ?thesis by (rule evolves.chain)
        next
          case (Some err)
          then have res: "p' = p \<and> log' = log @ [?e]"
            using Cons.prems(1) \<open>deref p (Object b) = Some fb\<close> False True
            by (auto simp: Let_def)
          have "\<not> accepting h" using Some by (auto simp: accepting_def)
          then have "evolves (accepting h) (StepNew \<in> F) (store p, log) (store p, log @ [?e])"
            by (rule evolves.refused)
          then show ?thesis using res by simp
        qed
      qed
    qed
  qed
qed

lemma processNewBlocks_evolves:
  assumes "processNewBlocks h p log chain = (r, p', log')" and "filterSteps p = F"
  shows "evolves (accepting h) (StepNew \<in> F) (store p, log) (store p', log')"
proof (cases "chain = []")
  case True
  then have "p' = p \<and> log' = log" using assms(1) by (simp add: processNewBlocks_def)
  then show ?thesis by (simp add: evolves.same)
next
  case False
  then have "processNewBlocks_loop h (fAsRef (last chain)) chain p log = (r, p', log')"
    using assms(1) by (simp add: processNewBlocks_def)
  from processNewBlocks_loop_evolves [OF this assms(2)] show ?thesis .
qed

lemma processInitial_evolves:
  assumes c: "processInitialInclusiveIrreversibleBlock h p log blk obj True = (r, p', log')"
      and f: "filterSteps p = F"
  shows "evolves (accepting h) (StepNew \<in> F) (store p, log) (store p', log')"
proof -
  let ?fresh = "\<lparr>Block = blk, Obj = obj, sentAsNew = False\<rparr>"
  let ?p0 = "p\<lparr>store := store p @ [?fresh]\<rparr>"
  let ?tiny = "[\<lparr>BlockID = Id' blk, BlockNum = Number blk, PreviousBlockID = [],
                Object = Some (length (store p))\<rparr>]"
  obtain r1 p1 log1 where
    n: "processNewBlocks h ?p0 log ?tiny = (r1, p1, log1)" and
    d: "(r1 \<noteq> Return None \<and> (r, p', log') = (r1, p1, log1))
        \<or> (r1 = Return None
            \<and> processIrreversibleSegment h p1 log1 ?tiny (AsRef blk) = (r, p', log'))"
    using processInitial_cases [OF c] by blast
  have "\<not> sentAsNew ?fresh" by simp
  then have e0: "evolves (accepting h) (StepNew \<in> F) (store p, log) (store p @ [?fresh], log)"
    by (rule evolves.alloc)
  have "filterSteps ?p0 = F" using f by simp
  from processNewBlocks_evolves [OF n this]
  have "evolves (accepting h) (StepNew \<in> F) (store p @ [?fresh], log) (store p1, log1)"
    by simp
  with e0 have e1: "evolves (accepting h) (StepNew \<in> F) (store p, log) (store p1, log1)"
    by (rule evolves.chain)
  from d show ?thesis
  proof
    assume "r1 \<noteq> Return None \<and> (r, p', log') = (r1, p1, log1)"
    then show ?thesis using e1 by simp
  next
    assume "r1 = Return None
            \<and> processIrreversibleSegment h p1 log1 ?tiny (AsRef blk) = (r, p', log')"
    then have i: "processIrreversibleSegment h p1 log1 ?tiny (AsRef blk) = (r, p', log')"
      by simp
    from e1 processIrreversibleSegment_evolves [OF i] show ?thesis by (rule evolves.chain)
  qed
qed

lemma advanceLIB_evolves:
  assumes "advanceLIB h p log blk first = (r, p', log')"
  shows "evolves acc nf (store p, log) (store p', log')"
proof (cases "(r, p', log') = (Return None, p, log)")
  case True
  then show ?thesis by (simp add: evolves.same)
next
  case False
  obtain nh where nh: "lastBlockSent p = Some nh"
    using assms False by (cases "lastBlockSent p") (auto simp: advanceLIB_def)
  let ?l = "BlockInCurrentChain (forkDB p) (AsRef nh) (LibNum nh)"
  let ?p1 = "p\<lparr>forkDB := PurgeBeforeLIB (MoveLIB (forkDB p) ?l) (keptFinalBlocks p)\<rparr>"
  obtain hasNew irr0 stalled where
    hn: "HasNewIrreversibleSegment (forkDB p) ?l = (hasNew, irr0, stalled)"
    by (cases "HasNewIrreversibleSegment (forkDB p) ?l") auto
  let ?irr = "(case first of None \<Rightarrow> irr0 | Some f \<Rightarrow> irr0 @ [f])"
  obtain r2 p2 log2 where
    i: "processIrreversibleSegment h ?p1 log ?irr (AsRef blk) = (r2, p2, log2)"
    by (cases "processIrreversibleSegment h ?p1 log ?irr (AsRef blk)") auto
  obtain r3 log3 where
    s: "processStalledSegment h p2 log2 stalled (AsRef blk) = (r3, log3)"
    by (cases "processStalledSegment h p2 log2 stalled (AsRef blk)") auto
  have res: "(r, p', log') =
               (case (r2, p2, log2) of
                  (Return None, p2, log2) \<Rightarrow>
                    (let (r, log3) = processStalledSegment h p2 log2 stalled (AsRef blk)
                     in (r, p2, log3))
                | other \<Rightarrow> other)"
    using assms False nh hn i
    by (simp add: advanceLIB_def Let_def split: if_splits)
  have pl: "p' = p2 \<and> (log' = log2 \<or> log' = log3)"
    using res s by (auto split: go.splits option.splits prod.splits)
  have e1: "evolves acc nf (store p, log) (store p2, log2)"
    using processIrreversibleSegment_evolves [OF i, of acc nf] by simp
  have e2: "evolves acc nf (store p2, log2) (store p2, log3)"
    using s by (rule processStalledSegment_evolves)
  from pl show ?thesis
  proof (elim conjE disjE)
    assume "p' = p2" "log' = log2"
    then show ?thesis using e1 by simp
  next
    assume "p' = p2" "log' = log3"
    then show ?thesis using evolves.chain [OF e1 e2] by simp
  qed
qed

lemma emitSteps_evolves:
  assumes c: "emitSteps h p log blk chain undos redos first = (r, p', log')"
      and f: "filterSteps p = F"
  shows "evolves (accepting h) (StepNew \<in> F) (store p, log) (store p', log')"
proof -
  obtain r1 log1 where
    u: "(if matchFilter p StepUndo then processBlocks h p log (AsRef blk) undos StepUndo
         else (Return None, log)) = (r1, log1)"
    by (cases "if matchFilter p StepUndo then processBlocks h p log (AsRef blk) undos StepUndo
               else (Return None, log)") auto
  obtain r2 log2 where
    d: "(if matchFilter p StepNew then processBlocks h p log1 (AsRef blk) redos StepNew
         else (Return None, log1)) = (r2, log2)"
    by (cases "if matchFilter p StepNew then processBlocks h p log1 (AsRef blk) redos StepNew
               else (Return None, log1)") auto
  obtain r3 p3 log3 where n: "processNewBlocks h p log2 chain = (r3, p3, log3)"
    by (cases "processNewBlocks h p log2 chain") auto
  have e1: "evolves (accepting h) (StepNew \<in> F) (store p, log) (store p, log1)"
  proof (cases "matchFilter p StepUndo")
    case True
    then have "processBlocks h p log (AsRef blk) undos StepUndo = (r1, log1)" using u by simp
    then show ?thesis by (rule processBlocks_evolves)
  next
    case False
    then have "log1 = log" using u by simp
    then show ?thesis by (simp add: evolves.same)
  qed
  have e2: "evolves (accepting h) (StepNew \<in> F) (store p, log1) (store p, log2)"
  proof (cases "matchFilter p StepNew")
    case True
    then have "processBlocks h p log1 (AsRef blk) redos StepNew = (r2, log2)" using d by simp
    then show ?thesis by (rule processBlocks_evolves)
  next
    case False
    then have "log2 = log1" using d by simp
    then show ?thesis by (simp add: evolves.same)
  qed
  note e12 = evolves.chain [OF e1 e2]
  have e3: "evolves (accepting h) (StepNew \<in> F) (store p, log2) (store p3, log3)"
    using n f by (rule processNewBlocks_evolves)
  note e123 = evolves.chain [OF e12 e3]
  show ?thesis
  proof (cases "r1 = Return None")
    case False
    then have "p' = p \<and> log' = log1"
      using c u by (auto simp: emitSteps_def Let_def split: go.splits option.splits)
    then show ?thesis using e1 by simp
  next
    case r1: True
    show ?thesis
    proof (cases "r2 = Return None")
      case False
      then have "p' = p \<and> log' = log2"
        using c u d r1 by (auto simp: emitSteps_def Let_def split: go.splits option.splits)
      then show ?thesis using e12 by simp
    next
      case r2: True
      have res: "(r, p', log') =
                      (case (r3, p3, log3) of
                         (Return None, p3, log3) \<Rightarrow> advanceLIB h p3 log3 blk first
                       | other \<Rightarrow> other)"
        using c u d n r1 r2 by (simp add: emitSteps_def Let_def)
      show ?thesis
      proof (cases "r3 = Return None")
        case True
        then have a: "advanceLIB h p3 log3 blk first = (r, p', log')" using res by simp
        from e123 advanceLIB_evolves [OF a] show ?thesis by (rule evolves.chain)
      next
        case False
        then have "(r, p', log') = (r3, p3, log3)"
          using res by (auto split: go.splits option.splits)
        then show ?thesis using e123 by simp
      qed
    qed
  qed
qed

lemma trackUnlinkable_evolves:
  assumes c: "trackUnlinkable h p log blk a triggers undos redos first = (r, p', log')"
      and f: "filterSteps p = F"
  shows "evolves (accepting h) (StepNew \<in> F) (store p, log) (store p', log')"
proof -
  let ?c = "fst (computeNewLongestChain p a blk)"
  let ?p1 = "snd (computeNewLongestChain p a blk)"
  let ?u = "(?c = None \<and> HasLIB (forkDB ?p1))"
  let ?p2 = "(if ?u
                then ?p1\<lparr>consecutiveUnlinkableBlocks := consecutiveUnlinkableBlocks ?p1 + 1\<rparr>
                else ?p1\<lparr>consecutiveUnlinkableBlocks := 0\<rparr>)"
  have q: "store ?p2 = store p" "filterSteps ?p2 = F"
    using f by (simp_all add: computeNewLongestChain_def Let_def)
  have "(p' = ?p2 \<and> log' = log)
        \<or> emitSteps h ?p2 log blk (the ?c) undos redos first = (r, p', log')"
    using c by (simp add: trackUnlinkable_def Let_def split_beta split: if_splits)
  then show ?thesis
  proof
    assume "p' = ?p2 \<and> log' = log"
    then have "store p' = store p \<and> log' = log" using q(1) by simp
    then show ?thesis by (simp add: evolves.same)
  next
    assume "emitSteps h ?p2 log blk (the ?c) undos redos first = (r, p', log')"
    from emitSteps_evolves [OF this q(2)] show ?thesis using q(1) by simp
  qed
qed

lemma bootstrapLIB_evolves_Inl:
  assumes c: "bootstrapLIB h p log blk obj a t u rd = Inl (r, p', log')"
      and f: "filterSteps p = F"
  shows "filterSteps p' = F
         \<and> evolves (accepting h) (StepNew \<in> F) (store p, log) (store p', log')"
proof -
  let ?p1 = "p\<lparr>forkDB := SetLIB (forkDB p) blk (PreviousId blk) (LibNum blk)\<rparr>"
  have f1: "filterSteps ?p1 = F" using f by simp
  from bootstrapLIB_Inl [OF c, THEN conjunct2] show ?thesis
  proof (elim disjE conjE)
    assume i: "processInitialInclusiveIrreversibleBlock h ?p1 log blk obj True = (r, p', log')"
    from processInitial_evolves [OF i f1] processInitial_frame [OF i] f1
    show ?thesis by simp
  next
    assume "p' = ?p1" "log' = log"
    then show ?thesis using f by (simp add: evolves.same)
  qed
qed

lemma bootstrapLIB_store_Inr:
  assumes "bootstrapLIB h p log blk obj a t u rd = Inr (p0, x)"
  shows "store p0 = store p \<and> filterSteps p0 = filterSteps p"
  using bootstrapLIB_Inr [OF assms] by auto

lemma insertBlock_evolves_Inl:
  assumes c: "insertBlock h p log blk obj t u rd = Inl (r, p', log')"
      and f: "filterSteps p = F"
  shows "filterSteps p' = F
         \<and> evolves (accepting h) (StepNew \<in> F) (store p, log) (store p', log')"
  using insertBlock_Inl [OF c]
proof (elim disjE conjE)
  assume "(r, p', log') = (Return None, p, log)"
  then show ?thesis using f by (simp add: evolves.same)
next
  let ?fresh = "\<lparr>Block = blk, Obj = obj, sentAsNew = False\<rparr>"
  let ?q = "p\<lparr>forkDB := fst (AddLink (forkDB p) blk (PreviousId blk) (length (store p))),
               store := store p @ [?fresh]\<rparr>"
  assume b: "bootstrapLIB h ?q log blk obj (length (store p)) t u rd = Inl (r, p', log')"
  have fq: "filterSteps ?q = F" using f by simp
  have "\<not> sentAsNew ?fresh" by simp
  then have e0: "evolves (accepting h) (StepNew \<in> F) (store p, log) (store p @ [?fresh], log)"
    by (rule evolves.alloc)
  from bootstrapLIB_evolves_Inl [OF b fq]
  have "filterSteps p' = F"
    and "evolves (accepting h) (StepNew \<in> F) (store p @ [?fresh], log) (store p', log')"
    by simp_all
  then show ?thesis using evolves.chain [OF e0] by simp
qed

lemma insertBlock_evolves_Inr:
  assumes c: "insertBlock h p log blk obj t u rd = Inr (p0, x)"
  shows "filterSteps p0 = filterSteps p \<and> evolves acc nf (store p, log) (store p0, log)"
proof -
  let ?fresh = "\<lparr>Block = blk, Obj = obj, sentAsNew = False\<rparr>"
  let ?q = "p\<lparr>forkDB := fst (AddLink (forkDB p) blk (PreviousId blk) (length (store p))),
               store := store p @ [?fresh]\<rparr>"
  from insertBlock_Inr [OF c] have
    b: "bootstrapLIB h ?q log blk obj (length (store p)) t u rd = Inr (p0, x)"
    by simp
  have "\<not> sentAsNew ?fresh" by simp
  then have "evolves acc nf (store p, log) (store p @ [?fresh], log)"
    by (rule evolves.alloc)
  then show ?thesis using bootstrapLIB_store_Inr [OF b] by simp
qed

lemma linkStage_evolves_Inl:
  assumes c: "linkStage h p log blk obj = Inl (r, p', log')"
      and f: "filterSteps p = F"
  shows "filterSteps p' = F
         \<and> evolves (accepting h) (StepNew \<in> F) (store p, log) (store p', log')"
  using linkStage_Inl [OF c]
proof (elim disjE conjE exE)
  assume "(r, p', log') = (Return (Some InvalidBlockID), p, log)"
  then show ?thesis using f by (simp add: evolves.same)
next
  assume "(r, p', log') = (Return None, p, log)"
  then show ?thesis using f by (simp add: evolves.same)
next
  assume "(r, p', log') = (Panic, p, log)"
  then show ?thesis using f by (simp add: evolves.same)
next
  assume i: "processInitialInclusiveIrreversibleBlock h p log blk obj True = (r, p', log')"
  from processInitial_evolves [OF i f] processInitial_frame [OF i] f
  show ?thesis by simp
next
  fix u rd
  assume "insertBlock h p log blk obj (triggersNewLongestChain p blk) u rd = Inl (r, p', log')"
  from insertBlock_evolves_Inl [OF this f] show ?thesis .
qed

lemma linkStage_evolves_Inr:
  assumes c: "linkStage h p log blk obj = Inr (p0, x)"
  shows "filterSteps p0 = filterSteps p \<and> evolves acc nf (store p, log) (store p0, log)"
proof -
  from linkStage_Inr [OF c] obtain u rd where
    "insertBlock h p log blk obj (triggersNewLongestChain p blk) u rd = Inr (p0, x)"
    by (elim conjE exE)
  then show ?thesis by (rule insertBlock_evolves_Inr)
qed

lemma ProcessBlock_evolves:
  assumes c: "ProcessBlock h p log blk obj = (r, p', log')"
      and f: "filterSteps p = F"
  shows "filterSteps p' = F
         \<and> evolves (accepting h) (StepNew \<in> F) (store p, log) (store p', log')"
proof (cases "linkStage h p log blk obj")
  case (Inl res)
  then have "linkStage h p log blk obj = Inl (r, p', log')"
    using c by (simp add: ProcessBlock_def)
  from linkStage_evolves_Inl [OF this f] show ?thesis .
next
  case (Inr lk)
  obtain p0 a t u rd first where lk: "lk = (p0, a, t, u, rd, first)"
    by (cases lk) auto
  have ls: "linkStage h p log blk obj = Inr (p0, (a, t, u, rd, first))"
    using Inr lk by simp
  from linkStage_evolves_Inr [OF ls, of "accepting h" "StepNew \<in> F"] f have
    f0: "filterSteps p0 = F" and
    e0: "evolves (accepting h) (StepNew \<in> F) (store p, log) (store p0, log)"
    by simp_all
  have tr: "trackUnlinkable h p0 log blk a t u rd first = (r, p', log')"
    using c Inr lk by (simp add: ProcessBlock_def)
  have "filterSteps p' = F" using trackUnlinkable_frame [OF tr] f0 by simp
  moreover have "evolves (accepting h) (StepNew \<in> F) (store p, log) (store p', log')"
    using e0 trackUnlinkable_evolves [OF tr f0] by (rule evolves.chain)
  ultimately show ?thesis by simp
qed

lemma run_evolves:
  "run h p log bs = Return (p', log') \<Longrightarrow> filterSteps p = F \<Longrightarrow>
     filterSteps p' = F
     \<and> evolves (accepting h) (StepNew \<in> F) (store p, log) (store p', log')"
proof (induction bs arbitrary: p log)
  case Nil
  then show ?case by (simp add: evolves.same)
next
  case (Cons b bs)
  obtain r q l where pb: "ProcessBlock h p log (fst b) (snd b) = (r, q, l)"
    by (cases "ProcessBlock h p log (fst b) (snd b)") auto
  from ProcessBlock_evolves [OF pb Cons.prems(2)] have
    fq: "filterSteps q = F" and
    e: "evolves (accepting h) (StepNew \<in> F) (store p, log) (store q, l)"
    by simp_all
  show ?case
  proof (cases r)
    case Panic
    then show ?thesis using Cons.prems(1) pb by simp
  next
    case (Return x)
    then have "run h q l bs = Return (p', log')"
      using Cons.prems(1) pb by simp
    from Cons.IH [OF this fq] show ?thesis
      using evolves.chain [OF e] by simp
  qed
qed

subsection \<open>Blocks emitted as new\<close>

text \<open>
  C1, as stated, fails. After a chain switch back to the first chain, block 3,
  already emitted as New and undone, is emitted as New again with the redo
  segment. When the handler refused the New emission of a block, the block is
  emitted as New again with the next chain. When a later block reuses the id of a
  block that the LIB moved past, that id is emitted as New a second time.
\<close>

theorem new_once_counterexample:
  "emitted (run quietHandler New [] forkAndBack)
     = [(StepNew, ''B1''), (StepIrreversible, ''B1''), (StepNew, ''B2''), (StepNew, ''B3''),
        (StepUndo, ''B3''), (StepNew, ''B3x''), (StepNew, ''B4x''), (StepUndo, ''B4x''),
        (StepUndo, ''B3x''), (StepNew, ''B3''), (StepNew, ''B4''), (StepNew, ''B5'')]
   \<and> emitted (run firstRefused presetLIB [] retried)
       = [(StepNew, ''C2''), (StepNew, ''C2''), (StepNew, ''C3'')]
   \<and> emitted (run quietHandler New [] reusedId)
       = [(StepNew, ''B1''), (StepIrreversible, ''B1''), (StepNew, ''B2''), (StepNew, ''B3''),
          (StepIrreversible, ''B2''), (StepNew, ''B4''), (StepIrreversible, ''B3''),
          (StepNew, ''B2'')]"
  by code_simp

lemma sentChainSegment_flagged:
  "sentChainSegment q ids True = Return objs \<Longrightarrow>
     \<forall>a \<in> set objs. \<exists>fb. deref q (Some a) = Some fb \<and> sentAsNew fb"
proof (induction ids arbitrary: objs)
  case Nil
  then show ?case by simp
next
  case (Cons i ids)
  from Cons.prems obtain node fb rest where
    n: "BlockForID (forkDB q) i = Some node" and
    d: "deref q (Object node) = Some fb" and
    r: "sentChainSegment q ids True = Return rest" and
    o: "objs = (if \<not> sentAsNew fb then rest else the (Object node) # rest)"
    by (auto split: option.splits go.splits if_splits)
  have "Object node = Some (the (Object node))"
    using d by (auto simp: deref_def split: option.splits)
  then have "deref q (Some (the (Object node))) = Some fb" using d by simp
  then show ?case using Cons.IH [OF r] o by auto
qed

lemma processBlocks_loop_uncounted:
  assumes "\<not> (step fo0 = StepNew \<and> StepCount fo0 = 0)"
  shows "processBlocks_loop h st0 fo0 idx blks log = (r, log') \<Longrightarrow>
           newCount i log' = newCount i log"
proof (induction blks arbitrary: idx log)
  case Nil
  then show ?case by simp
next
  case (Cons x xs)
  let ?e = "(Block x, fo0\<lparr>WrappedObj := Obj x, block := AsRef (Block x), StepIndex := idx\<rparr>)"
  have ne: "newCount i (log @ [?e]) = newCount i log"
    using assms by (simp add: newCount_def newPath_def)
  show ?case
  proof (cases "h log ?e")
    case None
    then have "processBlocks_loop h st0 fo0 (Suc idx) xs (log @ [?e]) = (r, log')"
      using Cons.prems by (simp add: Let_def)
    from Cons.IH [OF this] ne show ?thesis by simp
  next
    case (Some err)
    then have "log' = log @ [?e]" using Cons.prems by (simp add: Let_def)
    then show ?thesis using ne by simp
  qed
qed

lemma processBlocks_uncounted:
  assumes "processBlocks h p log cur blocks st0 = (r, log')"
  shows "newCount i log' = newCount i log"
proof (cases "derefAll p (map Some blocks)")
  case None
  then show ?thesis using assms by (simp add: processBlocks_def)
next
  case (Some fbs)
  show ?thesis
  proof (cases "fbs = []")
    case True
    then show ?thesis using assms Some by (simp add: processBlocks_def Let_def)
  next
    case False
    let ?fo0 = "\<lparr>step = st0, StepCount = length fbs, StepIndex = 0,
                 StepBlocks = map (\<lambda>fb. (Block fb, Obj fb)) fbs,
                 headBlock = cur, block = BlockRefEmpty,
                 lastLIBSent = currentLIB p, WrappedObj = 0\<rparr>"
    obtain r0 where l: "processBlocks_loop h st0 ?fo0 0 fbs log = (r0, log')"
      using assms Some by (auto simp: processBlocks_def Let_def split: prod.splits)
    have "\<not> (step ?fo0 = StepNew \<and> StepCount ?fo0 = 0)" using False by simp
    from processBlocks_loop_uncounted [OF this l] show ?thesis .
  qed
qed

text \<open>
  C1, amended: along every sequence of calls to \<^verbatim>\<open>ProcessBlock\<close> on a freshly built
  Forkable whose handler accepted every emission, and for every id, the New
  emissions made by \<^verbatim>\<open>processNewBlocks\<close> with that id never outnumber the
  \<^verbatim>\<open>ForkableBlock\<close>s of that id flagged \<^verbatim>\<open>sentAsNew\<close>: no \<^verbatim>\<open>ForkableBlock\<close> is emitted
  as New twice by \<^verbatim>\<open>processNewBlocks\<close>. The New emissions of a redo segment are not
  among those counted, and the redo segment holds only \<^verbatim>\<open>ForkableBlock\<close>s already
  flagged \<^verbatim>\<open>sentAsNew\<close>.
\<close>

theorem new_once_per_block:
  "(initial p0 \<and> accepting h \<and> run h p0 [] bs = Return (p, log) \<longrightarrow>
      newCount i log \<le> sentCount i (store p))
   \<and> (processBlocks h q l cur redos StepNew = (r, l') \<longrightarrow> newCount i l' = newCount i l)
   \<and> (sentChainSegment q ids True = Return objs \<longrightarrow>
        (\<forall>a \<in> set objs. \<exists>fb. deref q (Some a) = Some fb \<and> sentAsNew fb))"
proof (intro conjI impI)
  assume a: "initial p0 \<and> accepting h \<and> run h p0 [] bs = Return (p, log)"
  then have "evolves True (StepNew \<in> filterSteps p0) (store p0, []) (store p, log)"
    using run_evolves [of h p0 "[]" bs p log "filterSteps p0"] by simp
  from evolves_counted [OF this, of i] show "newCount i log \<le> sentCount i (store p)"
    by (simp add: newCount_def)
next
  assume "processBlocks h q l cur redos StepNew = (r, l')"
  then show "newCount i l' = newCount i l" by (rule processBlocks_uncounted)
next
  assume "sentChainSegment q ids True = Return objs"
  then show "\<forall>a \<in> set objs. \<exists>fb. deref q (Some a) = Some fb \<and> sentAsNew fb"
    by (rule sentChainSegment_flagged)
qed

lemma forkedState_run:
  "run quietHandler New [] forkAndBack = Return (forkedState, forkedLog)"
proof -
  have "run quietHandler New [] forkAndBack \<noteq> Panic"
    by code_simp
  then show ?thesis
    by (auto simp: forkedState_def forkedLog_def split: go.splits)
qed

lemma accepting_quietHandler: "accepting quietHandler"
  by (simp add: accepting_def quietHandler_def)

theorem new_once_per_block_witness:
  "initial New \<and> accepting quietHandler
   \<and> run quietHandler New [] forkAndBack = Return (forkedState, forkedLog)
   \<and> newCount ''B3'' forkedLog \<le> sentCount ''B3'' (store forkedState)
   \<and> sentCount ''B3'' (store forkedState) = 1
   \<and> sentChainSegment forkedState [''B3x'', ''B4x''] True = Return [4, 5]
   \<and> map sentAsNew (store forkedState) = [False, True, True, True, True, True, True, True]"
proof -
  have s: "sentCount ''B3'' (store forkedState) = 1"
    by code_simp
  have c: "sentChainSegment forkedState [''B3x'', ''B4x''] True = Return [4, 5]"
    by code_simp
  have f: "map sentAsNew (store forkedState) = [False, True, True, True, True, True, True, True]"
    by code_simp
  show ?thesis
    using new_once_per_block [of New quietHandler forkAndBack forkedState forkedLog "''B3''"]
          initial_New accepting_quietHandler forkedState_run s c f
    by simp
qed

subsection \<open>Undo after new\<close>








end
